theory Spec2Isabelle
  imports Complex_Main "HOL-Library.Word"
begin

unbundle bit_operations_syntax

section \<open>Numeric types of \<open>qrack_types.hpp\<close>\<close>

text \<open>
  \<open>bitCapInt\<close> is an unsigned machine integer whose width is chosen by the build
  configuration (\<open>uint32_t\<close>, \<open>uint64_t\<close>, \<open>__uint128_t\<close>): it is an \<open>'a word\<close>,
  the width \<open>LENGTH('a)\<close> being the parameter. \<open>bitLenInt\<close> holds qubit indices and
  bit counts, which never leave the range of the smallest choice (\<open>uint8_t\<close>): it is
  \<open>nat\<close>. A \<open>real1\<close> value (\<open>float\<close> or \<open>double\<close>) is the real number it stands
  for, and a \<open>complex\<close> a complex number. The addition that accumulates
  probabilities in the sampling loop rounds, and is a parameter of the model (see
  \<open>real1_add\<close> below); comparisons are exact; the quotient and the square root of
  the rescale factor are written as the exact ones.
\<close>

type_synonym bitLenInt = nat
type_synonym real1 = real

text \<open>
  The expression \<open>1 << n\<close>: the literal is an \<open>int\<close> (32 bits, signed), so the shift
  is done at 32 bits and the signed result is then converted to \<open>bitCapInt\<close>, with sign
  extension when \<open>bitCapInt\<close> is wider. A shift count of 32 or more is undefined in C++:
  the model returns \<open>None\<close>.
\<close>

definition shl_int :: "bitLenInt \<Rightarrow> 'a::len word option" where
  "shl_int n = (if n < 32 then Some (scast (push_bit n (1 :: 32 word))) else None)"

text \<open>The expression \<open>1U << n\<close>: the same at \<open>unsigned int\<close>, converted without sign.\<close>

definition shl_uint :: "bitLenInt \<Rightarrow> 'a::len word option" where
  "shl_uint n = (if n < 32 then Some (ucast (push_bit n (1 :: 32 word))) else None)"

section \<open>The engine and its collaborators\<close>

text \<open>
  \<open>QEngine\<close> is an abstract class: the methods below are virtual and implemented by the
  storage back ends, outside \<open>qengine.cpp\<close>. They are the parameters of the model,
  acting on an engine state of type \<open>'s\<close>, with \<open>'w\<close> the type \<open>bitCapInt\<close>. Probability queries read the state;
  \<open>Rand\<close> and \<open>GetNonunitaryPhase\<close> return a value and the state that follows (both
  draw from the engine's random generator); the others update the state.
  \<open>ApplyM_bit\<close> is the overload of \<open>ApplyM\<close> that takes a \<open>bool\<close> result; \<open>M\<close> is the
  unforced single-qubit measurement of the interface class.
  \<open>real1_add\<close> is the addition of two \<open>real1\<close> values as the build performs it: it
  rounds to the precision of \<open>float\<close> or \<open>double\<close>, so it is a parameter too, and the
  running sum of the sampling loop is taken with it.
\<close>

record ('s, 'w) qengine =
  doNormalize :: "'s \<Rightarrow> bool"
  NormalizeState :: "'s \<Rightarrow> 's"
  UpdateRunningNorm :: "'s \<Rightarrow> 's"
  Rand :: "'s \<Rightarrow> real1 \<times> 's"
  GetNonunitaryPhase :: "'s \<Rightarrow> complex \<times> 's"
  Prob :: "bitLenInt \<Rightarrow> 's \<Rightarrow> real1"
  ProbReg :: "bitLenInt \<Rightarrow> bitLenInt \<Rightarrow> 'w \<Rightarrow> 's \<Rightarrow> real1"
  ProbMask :: "'w \<Rightarrow> 'w \<Rightarrow> 's \<Rightarrow> real1"
  ApplyM_bit :: "'w \<Rightarrow> bool \<Rightarrow> complex \<Rightarrow> 's \<Rightarrow> 's"
  ApplyM :: "'w \<Rightarrow> 'w \<Rightarrow> complex \<Rightarrow> 's \<Rightarrow> 's"
  Apply2x2 :: "'w \<Rightarrow> 'w \<Rightarrow> complex list \<Rightarrow> bitLenInt \<Rightarrow> 'w list \<Rightarrow> bool \<Rightarrow> 's \<Rightarrow> 's"
  M :: "bitLenInt \<Rightarrow> 's \<Rightarrow> (bool \<times> 's) option"
  real1_add :: "real1 \<Rightarrow> real1 \<Rightarrow> real1"

text \<open>The guard \<open>if (doNormalize) { NormalizeState(); }\<close> that opens every measurement.\<close>

definition normalize_if_needed :: "('s, 'a::len word) qengine \<Rightarrow> 's \<Rightarrow> 's" where
  "normalize_if_needed e s = (if doNormalize e s then NormalizeState e s else s)"

section \<open>Single-qubit measurement\<close>

text \<open>
  \<open>QEngine::ForceM(qubit, result, doForce)\<close>. The outcome and the normaliser are the
  two local variables \<open>result\<close> and \<open>nrmlzr\<close> of the source.
\<close>

definition ForceM_outcome :: "bool \<Rightarrow> bool \<Rightarrow> real1 \<Rightarrow> real1 \<Rightarrow> bool" where
  "ForceM_outcome doForce result prob oneChance =
     (if \<not> doForce then (prob < oneChance) \<and> (oneChance > 0) else result)"

definition ForceM_nrmlzr :: "bool \<Rightarrow> real1 \<Rightarrow> real1" where
  "ForceM_nrmlzr result oneChance = (if result then oneChance else 1 - oneChance)"

definition ForceM :: "('s, 'a::len word) qengine \<Rightarrow> bitLenInt \<Rightarrow> bool \<Rightarrow> bool \<Rightarrow> 's \<Rightarrow> (bool \<times> 's) option" where
  "ForceM e qubit result doForce s0 =
     (let s1 = normalize_if_needed e s0;
          oneChance = Prob e qubit s1;
          (prob, s2) = (if \<not> doForce then Rand e s1 else (0, s1));
          result = ForceM_outcome doForce result prob oneChance;
          nrmlzr = ForceM_nrmlzr result oneChance
      in case shl_int qubit of
           None \<Rightarrow> None
         | Some qPower \<Rightarrow>
             (let (phase, s3) = GetNonunitaryPhase e s2
              in Some (result, ApplyM_bit e qPower result (phase / complex_of_real (sqrt nrmlzr)) s3)))"

section \<open>Probabilities of all patterns of a mask\<close>

text \<open>
  An output array \<open>real1*\<close> is the memory behind the pointer, a function from
  the index to the value stored there: \<open>probsArray[lcv] = x\<close> is a function update.
\<close>

type_synonym real1_array = "nat \<Rightarrow> real1"

lemma clear_lowest_less: "v \<noteq> 0 \<Longrightarrow> v AND (v - 1) < (v :: 'a::len word)"
proof -
  assume "v \<noteq> 0"
  then have "v - 1 < v"
    by (simp add: word_less_nat_alt unat_minus_one unat_gt_0)
  moreover have "v AND (v - 1) \<le> v - 1"
    by (rule word_and_le1)
  ultimately show ?thesis by simp
qed

text \<open>\<open>for (length = 0; v; length++) { oldV = v; v &= v - 1; }\<close>\<close>

function count_loop :: "'a::len word \<Rightarrow> bitLenInt \<Rightarrow> bitLenInt" where
  "count_loop v len = (if v \<noteq> 0 then count_loop (v AND (v - 1)) (len + 1) else len)"
  by pat_completeness auto
termination
  by (relation "measure (\<lambda>(v, len). unat v)")
    (auto simp: word_less_nat_alt [symmetric] clear_lowest_less)

text \<open>
  The second loop of \<open>ProbMaskAll\<close>, over \<open>v = ~mask\<close>: it collects the bit powers
  outside the mask that are below the mask, in ascending order.
\<close>

function skip_loop :: "'a::len word \<Rightarrow> 'a word \<Rightarrow> 'a word list \<Rightarrow> 'a word list" where
  "skip_loop msk v skipPowersVec =
     (if v \<noteq> 0 then
        (let oldV = v;
             v = v AND (v - 1);
             power = (v XOR oldV) AND oldV
         in if power < msk then skip_loop msk v (skipPowersVec @ [power])
            else skip_loop msk 0 skipPowersVec)
      else skipPowersVec)"
  by pat_completeness auto
termination
  by (relation "measure (\<lambda>(msk, v, skipPowersVec). unat v)")
    (auto simp: word_less_nat_alt [symmetric] clear_lowest_less unat_gt_0)

text \<open>
  The inner loop over \<open>p\<close>, with its \<open>break\<close>; it returns \<open>i\<close> and \<open>iHigh\<close>.
\<close>

fun expand_loop :: "'a::len word list \<Rightarrow> 'a word \<Rightarrow> 'a word \<Rightarrow> 'a word \<times> 'a word" where
  "expand_loop [] iHigh i = (i, iHigh)"
| "expand_loop (skipPower # rest) iHigh i =
     (let iLow = iHigh AND (skipPower - 1);
          i = i OR iLow;
          iHigh = push_bit 1 (iHigh XOR iLow)
      in if iHigh = 0 then (i, iHigh) else expand_loop rest iHigh i)"

definition expand_pattern :: "'a::len word list \<Rightarrow> 'a word \<Rightarrow> 'a word" where
  "expand_pattern skipPowersVec lcv =
     (let (i, iHigh) = expand_loop skipPowersVec lcv 0 in i OR iHigh)"

lemma unat_succ_less: "lcv < (lengthPower :: 'a::len word) \<Longrightarrow> unat (lcv + 1) = unat lcv + 1"
  by (metis (no_types, lifting) add.commute add_cancel_left_right inc_i
    inc_le unat_plus_simple unsigned_0 unsigned_1 word_gt_0)

text \<open>\<open>for (lcv = 0; lcv < lengthPower; lcv++) { probsArray[lcv] = f(lcv); }\<close>\<close>

function fill_loop :: "('a::len word \<Rightarrow> real1) \<Rightarrow> 'a word \<Rightarrow> 'a word \<Rightarrow> real1_array \<Rightarrow> real1_array" where
  "fill_loop f lengthPower lcv probsArray =
     (if lcv < lengthPower
      then fill_loop f lengthPower (lcv + 1) (probsArray(unat lcv := f lcv))
      else probsArray)"
  by pat_completeness auto
termination
proof (relation "measure (\<lambda>(f, lengthPower, lcv, probsArray). unat lengthPower - unat lcv)")
  show "wf (measure (\<lambda>(f, lengthPower :: 'a word, lcv, probsArray). unat lengthPower - unat lcv))"
    by simp
next
  fix f :: "'a word \<Rightarrow> real1" and lengthPower lcv :: "'a word" and probsArray :: real1_array
  assume lt: "lcv < lengthPower"
  then have "unat lcv < unat lengthPower"
    by (simp add: word_less_nat_alt)
  moreover from lt have "unat (lcv + 1) = unat lcv + 1"
    by (rule unat_succ_less)
  ultimately show "((f, lengthPower, lcv + 1, probsArray(unat lcv := f lcv)),
      (f, lengthPower, lcv, probsArray))
    \<in> measure (\<lambda>(f, lengthPower, lcv, probsArray). unat lengthPower - unat lcv)"
    by simp
qed

definition ProbMaskAll :: "('s, 'a::len word) qengine \<Rightarrow> 'a word \<Rightarrow> real1_array \<Rightarrow> 's \<Rightarrow> real1_array option" where
  "ProbMaskAll e msk probsArray s =
     (let length = count_loop msk 0;
          skipPowersVec = skip_loop msk (NOT msk) []
      in case shl_int length of
           None \<Rightarrow> None
         | Some lengthPower \<Rightarrow>
             Some (fill_loop (\<lambda>lcv. ProbMask e msk (expand_pattern skipPowersVec lcv) s)
                     lengthPower 0 probsArray))"

definition ProbRegAll :: "('s, 'a::len word) qengine \<Rightarrow> bitLenInt \<Rightarrow> bitLenInt \<Rightarrow> real1_array \<Rightarrow> 's \<Rightarrow> real1_array option" where
  "ProbRegAll e start len probsArray s =
     (case shl_uint len of
        None \<Rightarrow> None
      | Some lengthPower \<Rightarrow>
          Some (fill_loop (\<lambda>lcv. ProbReg e start len lcv s) lengthPower 0 probsArray))"

section \<open>Multi-qubit measurement\<close>

text \<open>
  The sampling loop shared by \<open>ForceM\<close> on a list of qubits and \<open>ForceMReg\<close>:
  \<^verbatim>\<open>while ((lowerProb < prob) && (lcv < lengthPower)) { ... lcv++; }\<close>
  It returns the final \<open>lcv\<close>, \<open>nrmlzr\<close> and \<open>result\<close>. \<open>add\<close> is the addition of
  \<open>real1\<close> in \<open>lowerProb += probArray[lcv]\<close>; the comparisons are exact.
\<close>

function sample_loop :: "(real1 \<Rightarrow> real1 \<Rightarrow> real1) \<Rightarrow> real1_array \<Rightarrow> real1 \<Rightarrow> 'a::len word \<Rightarrow> 'a word
    \<Rightarrow> real1 \<Rightarrow> real1 \<Rightarrow> real1 \<Rightarrow> 'a word \<Rightarrow> 'a word \<times> real1 \<times> 'a word" where
  "sample_loop add probArray prob lengthPower lcv lowerProb largestProb nrmlzr result =
     (if lowerProb < prob \<and> lcv < lengthPower then
        (let lowerProb = add lowerProb (probArray (unat lcv))
         in if largestProb \<le> probArray (unat lcv)
            then sample_loop add probArray prob lengthPower (lcv + 1) lowerProb
                   (probArray (unat lcv)) (probArray (unat lcv)) lcv
            else sample_loop add probArray prob lengthPower (lcv + 1) lowerProb
                   largestProb nrmlzr result)
      else (lcv, nrmlzr, result))"
  by pat_completeness auto
termination
  by (relation "measure (\<lambda>(add, probArray, prob, lengthPower, lcv, rest). unat lengthPower - unat lcv)")
    (auto simp: unat_succ_less word_less_nat_alt)

text \<open>
  The sampling block: initialisation, the loop and the adjustment that follows it,
  \<^verbatim>\<open>if (lcv < lengthPower) { lcv--; result = lcv; nrmlzr = probArray[lcv]; }\<close>
  It returns \<open>result\<close> and \<open>nrmlzr\<close>; \<open>nrmlzr\<close> enters with the value \<open>ONE_R1\<close>.
  The array has \<open>lengthPower\<close> entries. The reads of the loop are below \<open>lengthPower\<close>;
  the read after \<open>lcv--\<close> is not when \<open>lcv\<close> was 0 and has wrapped around: it is
  outside the array, which is undefined in C++, and the model returns \<open>None\<close>.
\<close>

definition sample_pattern :: "(real1 \<Rightarrow> real1 \<Rightarrow> real1) \<Rightarrow> real1_array \<Rightarrow> real1 \<Rightarrow> 'a::len word
    \<Rightarrow> ('a word \<times> real1) option" where
  "sample_pattern add probArray prob lengthPower =
     (let (lcv, nrmlzr, result) =
            sample_loop add probArray prob lengthPower 0 0 0 1 (lengthPower - 1)
      in if lcv < lengthPower
         then (let lcv = lcv - 1
               in if lcv < lengthPower then Some (lcv, probArray (unat lcv)) else None)
         else Some (result, nrmlzr))"

text \<open>
  \<open>new real1[lengthPower]()\<close>: an array of zeros. C++ throws
  \<open>std::bad_array_new_length\<close> when the size in bytes does not fit \<open>size_t\<close>; the
  model takes \<open>size_t\<close> at 64 bits and \<open>real1\<close> at 4 bytes, its smaller choice, and
  returns \<open>None\<close> then. Running out of memory below that bound is not modelled.
\<close>

definition new_real1_array :: "'a::len word \<Rightarrow> real1_array option" where
  "new_real1_array lengthPower = (if 4 * unat lengthPower < 2 ^ 64 then Some (\<lambda>_. 0) else None)"

text \<open>
  \<open>for (i = 0; i < n; i++) { qPowers[i] = 1 << arr[i]; mask |= qPowers[i]; }\<close>, for
  either kind of shift; the list of indices is \<open>[0..<n]\<close>.
\<close>

fun powers_loop :: "(bitLenInt \<Rightarrow> 'a::len word option) \<Rightarrow> bitLenInt list \<Rightarrow> nat list \<Rightarrow> 'a word list \<Rightarrow> 'a word
    \<Rightarrow> ('a word list \<times> 'a word) option" where
  "powers_loop shl arr [] qPowers msk = Some (qPowers, msk)"
| "powers_loop shl arr (i # is) qPowers msk =
     (case shl (arr ! i) of
        None \<Rightarrow> None
      | Some qPower \<Rightarrow> powers_loop shl arr is (qPowers @ [qPower]) (msk OR qPower))"

text \<open>\<open>for (j = 0; j < length; j++) { result |= values[j] ? (1U << bits[j]) : 0U; }\<close>\<close>

fun forced_loop :: "bitLenInt list \<Rightarrow> bool list \<Rightarrow> nat list \<Rightarrow> 'a::len word \<Rightarrow> 'a word option" where
  "forced_loop bits vals [] result = Some result"
| "forced_loop bits vals (j # js) result =
     (if vals ! j
      then (case shl_uint (bits ! j) of
              None \<Rightarrow> None
            | Some qPower \<Rightarrow> forced_loop bits vals js (result OR qPower))
      else forced_loop bits vals js (result OR 0))"

text \<open>\<open>for (p = 0; p < length; p++) { if ((1U << p) & result) { i |= qPowers[p]; } }\<close>\<close>

fun remap_loop :: "'a::len word list \<Rightarrow> 'a word \<Rightarrow> nat list \<Rightarrow> 'a word \<Rightarrow> 'a word option" where
  "remap_loop qPowers result [] i = Some i"
| "remap_loop qPowers result (p # ps) i =
     (case shl_uint p of
        None \<Rightarrow> None
      | Some pPower \<Rightarrow>
          remap_loop qPowers result ps (if pPower AND result \<noteq> 0 then i OR qPowers ! p else i))"

text \<open>
  \<open>QEngine::ForceM(bits, length, values)\<close>. \<open>bits\<close> and \<open>values\<close> are the arrays behind
  the two pointers, \<open>len\<close> is the argument \<open>length\<close>, and a null \<open>values\<close> is \<open>None\<close>.
  The call \<open>ForceM(bits[0], values[0])\<close> takes the default \<open>doForce = true\<close> of the
  declaration.
\<close>

definition ForceM_bits :: "('s, 'a::len word) qengine \<Rightarrow> bitLenInt list \<Rightarrow> bitLenInt \<Rightarrow> bool list option \<Rightarrow> 's
    \<Rightarrow> ('a word \<times> 's) option" where
  "ForceM_bits e bits len vals s0 =
     (if len = 1 then
        (case (case vals of None \<Rightarrow> M e (bits ! 0) s0
                          | Some vs \<Rightarrow> ForceM e (bits ! 0) (vs ! 0) True s0) of
           None \<Rightarrow> None
         | Some (outcome, s) \<Rightarrow>
             if outcome then map_option (\<lambda>qPower. (qPower, s)) (shl_uint (bits ! 0))
             else Some (0, s))
      else
        (let s1 = normalize_if_needed e s0;
             (phase, s2) = GetNonunitaryPhase e s1
         in case powers_loop shl_uint bits [0..<len] [] 0 of
              None \<Rightarrow> None
            | Some (qPowers, regMask) \<Rightarrow>
                (let qPowers = sort qPowers
                 in case shl_int len of
                      None \<Rightarrow> None
                    | Some lengthPower \<Rightarrow>
                        (case vals of
                           Some vs \<Rightarrow>
                             (case forced_loop bits vs [0..<len] 0 of
                                None \<Rightarrow> None
                              | Some result \<Rightarrow>
                                  (let nrmlzr = ProbMask e regMask result s2;
                                       nrm = phase / complex_of_real (sqrt nrmlzr)
                                   in Some (result, ApplyM e regMask result nrm s2)))
                         | None \<Rightarrow>
                             (let (prob, s3) = Rand e s2
                              in case new_real1_array lengthPower of
                                   None \<Rightarrow> None
                                 | Some probArray \<Rightarrow>
                                     (case ProbMaskAll e regMask probArray s3 of
                                        None \<Rightarrow> None
                                      | Some probArray \<Rightarrow>
                                          (case sample_pattern (real1_add e) probArray prob lengthPower of
                                             None \<Rightarrow> None
                                           | Some (result, nrmlzr) \<Rightarrow>
                                               (case remap_loop qPowers result [0..<len] 0 of
                                                  None \<Rightarrow> None
                                                | Some result \<Rightarrow>
                                                    (let nrm = phase / complex_of_real (sqrt nrmlzr)
                                                     in Some (result, ApplyM e regMask result nrm s3))))))))))"

text \<open>
  A shift of a \<open>bitCapInt\<close> by a qubit index, \<open>x << start\<close>; undefined in C++ when the
  count reaches the width of the type.
\<close>

definition shl_cap :: "'a::len word \<Rightarrow> bitLenInt \<Rightarrow> 'a word option" where
  "shl_cap x n = (if n < LENGTH('a) then Some (push_bit n x) else None)"

text \<open>\<open>QEngine::ForceMReg(start, length, result, doForce)\<close>\<close>

definition ForceMReg :: "('s, 'a::len word) qengine \<Rightarrow> bitLenInt \<Rightarrow> bitLenInt \<Rightarrow> 'a word \<Rightarrow> bool \<Rightarrow> 's
    \<Rightarrow> ('a word \<times> 's) option" where
  "ForceMReg e start len result doForce s0 =
     (if len = 1 then
        (case ForceM e start (result AND 1 \<noteq> 0) doForce s0 of
           None \<Rightarrow> None
         | Some (outcome, s) \<Rightarrow> Some (if outcome then 1 else 0, s))
      else
        (let s1 = normalize_if_needed e s0;
             (prob, s2) = Rand e s1;
             (phase, s3) = GetNonunitaryPhase e s2
         in case shl_int len of
              None \<Rightarrow> None
            | Some lengthPower \<Rightarrow>
                (case shl_cap (lengthPower - 1) start of
                   None \<Rightarrow> None
                 | Some regMask \<Rightarrow>
                     (case new_real1_array lengthPower of
                        None \<Rightarrow> None
                      | Some probArray \<Rightarrow>
                          (case ProbRegAll e start len probArray s3 of
                             None \<Rightarrow> None
                           | Some probArray \<Rightarrow>
                               (case (if \<not> doForce
                                      then sample_pattern (real1_add e) probArray prob lengthPower
                                      else Some (result, 1)) of
                                  None \<Rightarrow> None
                                | Some (result, nrmlzr) \<Rightarrow>
                                    (case shl_cap result start of
                                       None \<Rightarrow> None
                                     | Some resultPtr \<Rightarrow>
                                         (let nrm = phase / complex_of_real (sqrt nrmlzr)
                                          in Some (result, ApplyM e regMask resultPtr nrm s3)))))))))"

section \<open>Gate layer\<close>

text \<open>
  A matrix \<open>const complex*\<close> is the list of its four entries, row by row. \<open>controls\<close>
  is the array behind the pointer and \<open>controlLen\<close> the number of entries read.
\<close>

definition pauliX :: "complex list" where
  "pauliX = [Complex 0 0, Complex 1 0, Complex 1 0, Complex 0 0]"

definition sqrtX :: "complex list" where
  "sqrtX = [Complex (1 / 2) (1 / 2), Complex (1 / 2) (- 1 / 2),
            Complex (1 / 2) (- 1 / 2), Complex (1 / 2) (1 / 2)]"

definition iSqrtX :: "complex list" where
  "iSqrtX = [Complex (1 / 2) (- 1 / 2), Complex (1 / 2) (1 / 2),
             Complex (1 / 2) (1 / 2), Complex (1 / 2) (- 1 / 2)]"

definition ApplySingleBit :: "('s, 'a::len word) qengine \<Rightarrow> complex list \<Rightarrow> bool \<Rightarrow> bitLenInt \<Rightarrow> 's \<Rightarrow> 's option" where
  "ApplySingleBit e mtrx doCalcNorm qubit s =
     (case shl_int qubit of
        None \<Rightarrow> None
      | Some qPower \<Rightarrow> Some (Apply2x2 e 0 qPower mtrx 1 [qPower] doCalcNorm s))"

definition ApplyControlled2x2 :: "('s, 'a::len word) qengine \<Rightarrow> bitLenInt list \<Rightarrow> bitLenInt \<Rightarrow> bitLenInt
    \<Rightarrow> complex list \<Rightarrow> bool \<Rightarrow> 's \<Rightarrow> 's option" where
  "ApplyControlled2x2 e controls controlLen target mtrx doCalcNorm s =
     (case powers_loop shl_int controls [0..<controlLen] [] 0 of
        None \<Rightarrow> None
      | Some (qPowers, fullMask) \<Rightarrow>
          (let controlMask = fullMask
           in case shl_int target of
                None \<Rightarrow> None
              | Some tPower \<Rightarrow>
                  (let qPowers = qPowers @ [tPower];
                       fullMask = fullMask OR tPower;
                       qPowersSorted = sort qPowers
                   in Some (Apply2x2 e controlMask fullMask mtrx (controlLen + 1)
                              qPowersSorted doCalcNorm s))))"

definition ApplyAntiControlled2x2 :: "('s, 'a::len word) qengine \<Rightarrow> bitLenInt list \<Rightarrow> bitLenInt \<Rightarrow> bitLenInt
    \<Rightarrow> complex list \<Rightarrow> bool \<Rightarrow> 's \<Rightarrow> 's option" where
  "ApplyAntiControlled2x2 e controls controlLen target mtrx doCalcNorm s =
     (case powers_loop shl_int controls [0..<controlLen] [] 0 of
        None \<Rightarrow> None
      | Some (qPowers, unused) \<Rightarrow>
          (case shl_int target of
             None \<Rightarrow> None
           | Some tPower \<Rightarrow>
               (let qPowers = qPowers @ [tPower];
                    qPowersSorted = sort qPowers
                in Some (Apply2x2 e 0 tPower mtrx (controlLen + 1) qPowersSorted doCalcNorm s))))"

definition ApplyControlledSingleBit :: "('s, 'a::len word) qengine \<Rightarrow> bitLenInt list \<Rightarrow> bitLenInt \<Rightarrow> bitLenInt
    \<Rightarrow> complex list \<Rightarrow> 's \<Rightarrow> 's option" where
  "ApplyControlledSingleBit e controls controlLen target mtrx s =
     (if controlLen = 0 then ApplySingleBit e mtrx True target s
      else (case ApplyControlled2x2 e controls controlLen target mtrx False s of
              None \<Rightarrow> None
            | Some s1 \<Rightarrow> Some (if doNormalize e s1 then UpdateRunningNorm e s1 else s1)))"

definition ApplyAntiControlledSingleBit :: "('s, 'a::len word) qengine \<Rightarrow> bitLenInt list \<Rightarrow> bitLenInt \<Rightarrow> bitLenInt
    \<Rightarrow> complex list \<Rightarrow> 's \<Rightarrow> 's option" where
  "ApplyAntiControlledSingleBit e controls controlLen target mtrx s =
     (if controlLen = 0 then ApplySingleBit e mtrx True target s
      else (case ApplyAntiControlled2x2 e controls controlLen target mtrx False s of
              None \<Rightarrow> None
            | Some s1 \<Rightarrow> Some (if doNormalize e s1 then UpdateRunningNorm e s1 else s1)))"

text \<open>
  The body shared by \<open>Swap\<close>, \<open>SqrtSwap\<close> and \<open>ISqrtSwap\<close>, which differ in the
  matrix only.
\<close>

definition swap_body :: "('s, 'a::len word) qengine \<Rightarrow> complex list \<Rightarrow> bitLenInt \<Rightarrow> bitLenInt \<Rightarrow> 's \<Rightarrow> 's option" where
  "swap_body e mtrx qubit1 qubit2 s =
     (if qubit1 = qubit2 then Some s
      else (case (shl_int qubit1, shl_int qubit2) of
              (Some qPower1, Some qPower2) \<Rightarrow>
                (let qPowersSorted = sort [qPower1, qPower2]
                 in Some (Apply2x2 e (qPowersSorted ! 0) (qPowersSorted ! 1) mtrx 2
                            qPowersSorted False s))
            | _ \<Rightarrow> None))"

definition Swap :: "('s, 'a::len word) qengine \<Rightarrow> bitLenInt \<Rightarrow> bitLenInt \<Rightarrow> 's \<Rightarrow> 's option" where
  "Swap e qubit1 qubit2 s = swap_body e pauliX qubit1 qubit2 s"

definition SqrtSwap :: "('s, 'a::len word) qengine \<Rightarrow> bitLenInt \<Rightarrow> bitLenInt \<Rightarrow> 's \<Rightarrow> 's option" where
  "SqrtSwap e qubit1 qubit2 s = swap_body e sqrtX qubit1 qubit2 s"

definition ISqrtSwap :: "('s, 'a::len word) qengine \<Rightarrow> bitLenInt \<Rightarrow> bitLenInt \<Rightarrow> 's \<Rightarrow> 's option" where
  "ISqrtSwap e qubit1 qubit2 s = swap_body e iSqrtX qubit1 qubit2 s"

text \<open>The body shared by \<open>CSwap\<close>, \<open>CSqrtSwap\<close> and \<open>CISqrtSwap\<close>.\<close>

definition cswap_body :: "('s, 'a::len word) qengine \<Rightarrow> complex list \<Rightarrow> bitLenInt list \<Rightarrow> bitLenInt
    \<Rightarrow> bitLenInt \<Rightarrow> bitLenInt \<Rightarrow> 's \<Rightarrow> 's option" where
  "cswap_body e mtrx controls controlLen qubit1 qubit2 s =
     (if qubit1 = qubit2 then Some s
      else (case powers_loop shl_uint controls [0..<controlLen] [] 0 of
              None \<Rightarrow> None
            | Some (qPowers, skipMask) \<Rightarrow>
                (case (shl_uint qubit1, shl_uint qubit2) of
                   (Some qPower1, Some qPower2) \<Rightarrow>
                     (let qPowersSorted = sort (qPowers @ [qPower1, qPower2])
                      in Some (Apply2x2 e (skipMask OR qPower1) (skipMask OR qPower2) mtrx
                                 (2 + controlLen) qPowersSorted False s))
                 | _ \<Rightarrow> None)))"

text \<open>The body shared by \<open>AntiCSwap\<close>, \<open>AntiCSqrtSwap\<close> and \<open>AntiCISqrtSwap\<close>.\<close>

definition anticswap_body :: "('s, 'a::len word) qengine \<Rightarrow> complex list \<Rightarrow> bitLenInt list \<Rightarrow> bitLenInt
    \<Rightarrow> bitLenInt \<Rightarrow> bitLenInt \<Rightarrow> 's \<Rightarrow> 's option" where
  "anticswap_body e mtrx controls controlLen qubit1 qubit2 s =
     (if qubit1 = qubit2 then Some s
      else (case powers_loop shl_uint controls [0..<controlLen] [] 0 of
              None \<Rightarrow> None
            | Some (qPowers, unused) \<Rightarrow>
                (case (shl_uint qubit1, shl_uint qubit2) of
                   (Some qPower1, Some qPower2) \<Rightarrow>
                     (let qPowersSorted = sort (qPowers @ [qPower1, qPower2])
                      in Some (Apply2x2 e qPower1 qPower2 mtrx (2 + controlLen)
                                 qPowersSorted False s))
                 | _ \<Rightarrow> None)))"

definition CSwap :: "('s, 'a::len word) qengine \<Rightarrow> bitLenInt list \<Rightarrow> bitLenInt \<Rightarrow> bitLenInt \<Rightarrow> bitLenInt \<Rightarrow> 's \<Rightarrow> 's option" where
  "CSwap e controls controlLen qubit1 qubit2 s = cswap_body e pauliX controls controlLen qubit1 qubit2 s"

definition AntiCSwap :: "('s, 'a::len word) qengine \<Rightarrow> bitLenInt list \<Rightarrow> bitLenInt \<Rightarrow> bitLenInt \<Rightarrow> bitLenInt \<Rightarrow> 's \<Rightarrow> 's option" where
  "AntiCSwap e controls controlLen qubit1 qubit2 s = anticswap_body e pauliX controls controlLen qubit1 qubit2 s"

definition CSqrtSwap :: "('s, 'a::len word) qengine \<Rightarrow> bitLenInt list \<Rightarrow> bitLenInt \<Rightarrow> bitLenInt \<Rightarrow> bitLenInt \<Rightarrow> 's \<Rightarrow> 's option" where
  "CSqrtSwap e controls controlLen qubit1 qubit2 s = cswap_body e sqrtX controls controlLen qubit1 qubit2 s"

definition AntiCSqrtSwap :: "('s, 'a::len word) qengine \<Rightarrow> bitLenInt list \<Rightarrow> bitLenInt \<Rightarrow> bitLenInt \<Rightarrow> bitLenInt \<Rightarrow> 's \<Rightarrow> 's option" where
  "AntiCSqrtSwap e controls controlLen qubit1 qubit2 s = anticswap_body e sqrtX controls controlLen qubit1 qubit2 s"

definition CISqrtSwap :: "('s, 'a::len word) qengine \<Rightarrow> bitLenInt list \<Rightarrow> bitLenInt \<Rightarrow> bitLenInt \<Rightarrow> bitLenInt \<Rightarrow> 's \<Rightarrow> 's option" where
  "CISqrtSwap e controls controlLen qubit1 qubit2 s = cswap_body e iSqrtX controls controlLen qubit1 qubit2 s"

definition AntiCISqrtSwap :: "('s, 'a::len word) qengine \<Rightarrow> bitLenInt list \<Rightarrow> bitLenInt \<Rightarrow> bitLenInt \<Rightarrow> bitLenInt \<Rightarrow> 's \<Rightarrow> 's option" where
  "AntiCISqrtSwap e controls controlLen qubit1 qubit2 s = anticswap_body e iSqrtX controls controlLen qubit1 qubit2 s"

section \<open>An engine that records its calls\<close>

text \<open>
  A concrete engine on which the operations can be run: its state is the list of
  collaborator calls made so far, in order, with the uniform draws still to come.
  The probabilities it reports are fixed tables. Its \<open>real1\<close> addition is the exact
  one: the runs below use halves, quarters, eighths and sixteenths only, whose sums
  \<open>float\<close> and \<open>double\<close> represent exactly, so that no addition rounds.
\<close>

datatype 'w call =
    Call_NormalizeState
  | Call_UpdateRunningNorm
  | Call_Rand
  | Call_GetNonunitaryPhase
  | Call_ApplyM_bit 'w bool complex
  | Call_ApplyM 'w 'w complex
  | Call_Apply2x2 'w 'w "complex list" bitLenInt "'w list" bool
  | Call_M bitLenInt

type_synonym 'w trace = "'w call list \<times> real1 list"

definition next_draw :: "real1 list \<Rightarrow> real1" where
  "next_draw ds = (case ds of [] \<Rightarrow> 0 | d # _ \<Rightarrow> d)"

definition trace_engine :: "(bitLenInt \<Rightarrow> real1) \<Rightarrow> ('w \<Rightarrow> 'w \<Rightarrow> real1) \<Rightarrow> ('w trace, 'w) qengine" where
  "trace_engine pr pm =
     \<lparr> doNormalize = (\<lambda>s. True),
       NormalizeState = (\<lambda>(l, ds). (l @ [Call_NormalizeState], ds)),
       UpdateRunningNorm = (\<lambda>(l, ds). (l @ [Call_UpdateRunningNorm], ds)),
       Rand = (\<lambda>(l, ds). (next_draw ds, (l @ [Call_Rand], tl ds))),
       GetNonunitaryPhase = (\<lambda>(l, ds). (1, (l @ [Call_GetNonunitaryPhase], ds))),
       Prob = (\<lambda>qubit s. pr qubit),
       ProbReg = (\<lambda>start len perm s. pm perm perm),
       ProbMask = (\<lambda>msk perm s. pm msk perm),
       ApplyM_bit = (\<lambda>qPower result nrm (l, ds). (l @ [Call_ApplyM_bit qPower result nrm], ds)),
       ApplyM = (\<lambda>msk result nrm (l, ds). (l @ [Call_ApplyM msk result nrm], ds)),
       Apply2x2 = (\<lambda>offset1 offset2 mtrx bitCount qPowersSorted doCalcNorm (l, ds).
                     (l @ [Call_Apply2x2 offset1 offset2 mtrx bitCount qPowersSorted doCalcNorm], ds)),
       M = (\<lambda>qubit (l, ds). Some (False, (l @ [Call_M qubit], ds))),
       real1_add = (+) \<rparr>"

section \<open>The application engine of the specification\<close>




section \<open>Notions used to state the properties\<close>

text \<open>
  The positions of the set bits of a word in ascending order, and their number; the
  position of the lowest set bit; the number of mask bits below a position; the
  insertion of a zero bit at a position; the positions that \<open>ProbMaskAll\<close> skips; and
  the inverse of the expansion, which gathers the bits of a pattern at the mask's
  positions. None of them is part of the program.
\<close>

definition lowest_bit :: "'a::len word \<Rightarrow> nat" where
  "lowest_bit v = (LEAST n. bit v n)"

definition mask_bits :: "'a::len word \<Rightarrow> nat list" where
  "mask_bits m = filter (bit m) [0..<LENGTH('a)]"

definition open_gap :: "nat \<Rightarrow> 'a::len word \<Rightarrow> 'a word" where
  "open_gap k y = (y AND mask k) OR push_bit 1 (y AND NOT (mask k))"

definition skip_positions :: "'a::len word \<Rightarrow> nat list" where
  "skip_positions m = filter (\<lambda>k. (2 :: 'a word) ^ k < m) (mask_bits (NOT m))"

definition rank :: "'a::len word \<Rightarrow> nat \<Rightarrow> nat" where
  "rank m n = length (filter (bit m) [0..<n])"

definition compress :: "'a::len word \<Rightarrow> 'a word \<Rightarrow> 'a word" where
  "compress m x = horner_sum of_bool 2 (map (bit x) (mask_bits m))"

definition popcount :: "'a::len word \<Rightarrow> nat" where
  "popcount m = length (mask_bits m)"

text \<open>
  For stating what the sampling block does: one pass of the body of the sampling
  loop over the variables \<open>largestProb\<close>, \<open>nrmlzr\<close> and \<open>result\<close>, and the value of
  \<open>lowerProb\<close> after \<open>k\<close> passes, the sum of the first \<open>k\<close> entries taken from the
  left with the addition of the build.
\<close>

fun track_largest :: "real1_array \<Rightarrow> nat \<Rightarrow> real1 \<times> real1 \<times> 'a::len word \<Rightarrow> real1 \<times> real1 \<times> 'a word" where
  "track_largest P j (largestProb, nrmlzr, result) =
     (if largestProb \<le> P j then (P j, P j, word_of_nat j) else (largestProb, nrmlzr, result))"

fun run_sum :: "(real1 \<Rightarrow> real1 \<Rightarrow> real1) \<Rightarrow> real1_array \<Rightarrow> nat \<Rightarrow> real1" where
  "run_sum add P 0 = 0"
| "run_sum add P (Suc k) = add (run_sum add P k) (P k)"

declare count_loop.simps [simp del] skip_loop.simps [simp del] fill_loop.simps [simp del]
  sample_loop.simps [simp del]

section \<open>Single-qubit measurement: properties\<close>

lemma shl_int_Some: "n < 32 \<Longrightarrow> \<exists>p. (shl_int n :: 'a::len word option) = Some p"
  by (simp add: shl_int_def)

text \<open>
  C3. Single-qubit \<open>ForceM\<close> on a qubit whose bit power \<open>1 << qubit\<close> is defined: when
  \<open>doForce\<close> is false the outcome is the comparison of one uniform draw with the
  qubit's one-probability, when it is true the outcome is the supplied \<open>result\<close> and
  nothing is drawn; the normaliser is the one-probability for outcome true and one
  minus it otherwise; \<open>ApplyM\<close> is called once, with the factor
  \<open>phase / sqrt normaliser\<close>, and the outcome is returned.
\<close>

theorem ForceM_single_spec:
  fixes e :: "('s, 'a::len word) qengine" and qPower :: "'a word"
  assumes "shl_int qubit = Some qPower"
  shows "ForceM e qubit result doForce s0 =
           (let s1 = (if doNormalize e s0 then NormalizeState e s0 else s0);
                oneChance = Prob e qubit s1;
                outcome = (if doForce then result
                           else fst (Rand e s1) < oneChance \<and> oneChance > 0);
                s2 = (if doForce then s1 else snd (Rand e s1));
                nrmlzr = (if outcome then oneChance else 1 - oneChance)
            in Some (outcome,
                 ApplyM_bit e qPower outcome
                   (fst (GetNonunitaryPhase e s2) / complex_of_real (sqrt nrmlzr))
                   (snd (GetNonunitaryPhase e s2))))"
  using assms
  unfolding ForceM_def ForceM_outcome_def ForceM_nrmlzr_def normalize_if_needed_def Let_def
  by (simp add: case_prod_beta)

theorem ForceM_single_spec_witness:
  "(shl_int 0 :: 64 word option) = Some 1 \<and>
   ForceM (trace_engine (\<lambda>q. 1 / 4) (\<lambda>m p. 0)) 0 False False ([], [1 / 8 :: real]) =
     Some (True, ([Call_NormalizeState, Call_Rand, Call_GetNonunitaryPhase,
                   Call_ApplyM_bit (1 :: 64 word) True (1 / complex_of_real (sqrt (1 / 4)))], []))"
  using ForceM_single_spec [of 0 "1 :: 64 word" "trace_engine (\<lambda>q. 1 / 4) (\<lambda>m p. 0)" False False "([], [1 / 8])"]
  by (simp add: shl_int_def trace_engine_def next_draw_def)

lemma ForceM_nrmlzr_pos:
  "0 \<le> oneChance \<Longrightarrow> prob < 1 \<Longrightarrow>
   0 < ForceM_nrmlzr (ForceM_outcome False result prob oneChance) oneChance"
  by (auto simp: ForceM_nrmlzr_def ForceM_outcome_def)

text \<open>
  C10. Unforced single-qubit \<open>ForceM\<close> on a qubit whose one-probability is exactly
  zero: whatever the draw, the outcome is false and the normaliser is \<open>1 - 0 = 1\<close>, so
  the factor handed to \<open>ApplyM\<close> is \<open>phase / sqrt 1\<close>, with no division by zero.
\<close>

theorem ForceM_zero_chance:
  fixes e :: "('s, 'a::len word) qengine" and qPower :: "'a word"
  assumes "Prob e qubit (normalize_if_needed e s0) = 0"
    and "shl_int qubit = Some qPower"
  shows "ForceM e qubit result False s0 =
           (let s2 = snd (Rand e (normalize_if_needed e s0))
            in Some (False,
                 ApplyM_bit e qPower False
                   (fst (GetNonunitaryPhase e s2) / complex_of_real (sqrt 1))
                   (snd (GetNonunitaryPhase e s2))))
         \<and> (\<forall>prob. ForceM_outcome False result prob 0 = False
                    \<and> ForceM_nrmlzr (ForceM_outcome False result prob 0) 0 = 1)"
  using assms
  unfolding ForceM_def ForceM_outcome_def ForceM_nrmlzr_def Let_def
  by (simp add: case_prod_beta)

theorem ForceM_zero_chance_witness:
  "Prob (trace_engine (\<lambda>q. 0) (\<lambda>m p. 0)) 0
      (normalize_if_needed (trace_engine (\<lambda>q. 0) (\<lambda>m p. 0) :: (64 word trace, 64 word) qengine) ([], [0])) = 0
   \<and> (shl_int 0 :: 64 word option) = Some 1
   \<and> ForceM (trace_engine (\<lambda>q. 0) (\<lambda>m p. 0)) 0 True False ([], [0 :: real]) =
     Some (False, ([Call_NormalizeState, Call_Rand, Call_GetNonunitaryPhase,
                   Call_ApplyM_bit (1 :: 64 word) False 1], []))"
  using ForceM_zero_chance [of "trace_engine (\<lambda>q. 0) (\<lambda>m p. 0)" 0 "([], [0])" "1 :: 64 word" True]
  by (simp add: shl_int_def trace_engine_def next_draw_def normalize_if_needed_def)

section \<open>Gate layer: properties\<close>

text \<open>
  C6. Each of the nine paired-qubit gates, called with \<open>qubit1 = qubit2\<close>, returns at
  once: for every engine, whatever its collaborators do, the state that comes back is
  the state that went in, so no collaborator (\<open>Apply2x2\<close> among them) was called; and
  the call succeeds even where the bit powers of the builder would be undefined, so
  the builder was not run either.
\<close>

theorem paired_gate_same_qubit_noop:
  fixes e :: "('s, 'a::len word) qengine"
  shows "Swap e q q s = Some s \<and> SqrtSwap e q q s = Some s \<and> ISqrtSwap e q q s = Some s
       \<and> CSwap e controls controlLen q q s = Some s
       \<and> AntiCSwap e controls controlLen q q s = Some s
       \<and> CSqrtSwap e controls controlLen q q s = Some s
       \<and> AntiCSqrtSwap e controls controlLen q q s = Some s
       \<and> CISqrtSwap e controls controlLen q q s = Some s
       \<and> AntiCISqrtSwap e controls controlLen q q s = Some s"
  by (simp add: Swap_def SqrtSwap_def ISqrtSwap_def CSwap_def AntiCSwap_def CSqrtSwap_def
      AntiCSqrtSwap_def CISqrtSwap_def AntiCISqrtSwap_def swap_body_def cswap_body_def
      anticswap_body_def)

text \<open>
  C8. With \<open>controlLen = 0\<close>, \<open>ApplyControlledSingleBit\<close> and
  \<open>ApplyAntiControlledSingleBit\<close> are \<open>ApplySingleBit(mtrx, true, target)\<close>, which is
  one call of \<open>Apply2x2\<close> with control mask zero, the target's bit power, one
  participating bit and norm tracking on.
\<close>

theorem zero_controls_single_bit:
  fixes e :: "('s, 'a::len word) qengine"
  shows "ApplyControlledSingleBit e controls 0 target mtrx s = ApplySingleBit e mtrx True target s
       \<and> ApplyAntiControlledSingleBit e controls 0 target mtrx s = ApplySingleBit e mtrx True target s
       \<and> ApplySingleBit e mtrx True target s =
           (case shl_int target of
              None \<Rightarrow> None
            | Some qPower \<Rightarrow> Some (Apply2x2 e 0 qPower mtrx 1 [qPower] True s))"
  by (simp add: ApplyControlledSingleBit_def ApplyAntiControlledSingleBit_def ApplySingleBit_def)

section \<open>Multi-qubit measurement: forced outcomes\<close>

lemma ucast_pow2: "n < 32 \<Longrightarrow> (ucast (2 ^ n :: 32 word) :: 'a::len word) = 2 ^ n"
  by (rule bit_word_eqI) (auto simp: bit_ucast_iff bit_exp_iff)

lemma scast_pow2: "n < 31 \<Longrightarrow> (scast (2 ^ n :: 32 word) :: 'a::len word) = 2 ^ n"
  by (rule bit_word_eqI) (auto simp: bit_signed_iff bit_exp_iff min_def)

lemma shl_uint_eq: "n < 32 \<Longrightarrow> (shl_uint n :: 'a::len word option) = Some (2 ^ n)"
  by (simp add: shl_uint_def ucast_pow2)

lemma shl_int_eq: "n < 31 \<Longrightarrow> (shl_int n :: 'a::len word option) = Some (2 ^ n)"
  by (simp add: shl_int_def scast_pow2)

lemma forced_loop_bits:
  "\<forall>j\<in>set js. bits ! j < 32 \<Longrightarrow>
   \<exists>r :: 'a::len word. forced_loop bits vs js acc = Some r \<and>
     (\<forall>k. bit r k \<longleftrightarrow> bit acc k \<or> (k < LENGTH('a) \<and> (\<exists>j\<in>set js. vs ! j \<and> bits ! j = k)))"
proof (induction js arbitrary: acc)
  case Nil
  then show ?case by simp
next
  case (Cons j js)
  from Cons.prems have rest: "\<forall>j\<in>set js. bits ! j < 32" and here: "bits ! j < 32"
    by simp_all
  show ?case
  proof (cases "vs ! j")
    case True
    from Cons.IH [OF rest, of "acc OR 2 ^ (bits ! j)"]
    obtain r :: "'a word" where r: "forced_loop bits vs js (acc OR 2 ^ (bits ! j)) = Some r"
      and rb: "\<forall>k. bit r k \<longleftrightarrow> bit (acc OR 2 ^ (bits ! j)) k
                \<or> (k < LENGTH('a) \<and> (\<exists>j\<in>set js. vs ! j \<and> bits ! j = k))"
      by blast
    have "forced_loop bits vs (j # js) acc = Some r"
      using True here r by (simp add: shl_uint_eq)
    moreover have "bit r k \<longleftrightarrow> bit acc k \<or> (k < LENGTH('a) \<and> (\<exists>i\<in>set (j # js). vs ! i \<and> bits ! i = k))" for k
      using rb True by (auto simp: bit_or_iff bit_exp_iff)
    ultimately show ?thesis by blast
  next
    case False
    from Cons.IH [OF rest, of acc]
    obtain r :: "'a word" where r: "forced_loop bits vs js acc = Some r"
      and rb: "\<forall>k. bit r k \<longleftrightarrow> bit acc k
                \<or> (k < LENGTH('a) \<and> (\<exists>j\<in>set js. vs ! j \<and> bits ! j = k))"
      by blast
    have "forced_loop bits vs (j # js) acc = Some r"
      using False r by simp
    moreover have "bit r k \<longleftrightarrow> bit acc k \<or> (k < LENGTH('a) \<and> (\<exists>i\<in>set (j # js). vs ! i \<and> bits ! i = k))" for k
      using rb False by auto
    ultimately show ?thesis by blast
  qed
qed

lemma powers_loop_uint:
  "\<forall>j\<in>set js. arr ! j < 32 \<Longrightarrow>
   \<exists>m :: 'a::len word. powers_loop shl_uint arr js qs acc = Some (qs @ map (\<lambda>j. 2 ^ (arr ! j)) js, m) \<and>
     (\<forall>k. bit m k \<longleftrightarrow> bit acc k \<or> (k < LENGTH('a) \<and> (\<exists>j\<in>set js. arr ! j = k)))"
proof (induction js arbitrary: qs acc)
  case Nil
  then show ?case by simp
next
  case (Cons j js)
  from Cons.prems have rest: "\<forall>j\<in>set js. arr ! j < 32" and here: "arr ! j < 32"
    by simp_all
  from Cons.IH [OF rest, of "qs @ [2 ^ (arr ! j)]" "acc OR 2 ^ (arr ! j)"]
  obtain m :: "'a word" where m: "powers_loop shl_uint arr js (qs @ [2 ^ (arr ! j)]) (acc OR 2 ^ (arr ! j))
        = Some ((qs @ [2 ^ (arr ! j)]) @ map (\<lambda>j. 2 ^ (arr ! j)) js, m)"
    and mb: "\<forall>k. bit m k \<longleftrightarrow> bit (acc OR 2 ^ (arr ! j)) k
                \<or> (k < LENGTH('a) \<and> (\<exists>j\<in>set js. arr ! j = k))"
    by blast
  have "powers_loop shl_uint arr (j # js) qs acc = Some (qs @ map (\<lambda>j. 2 ^ (arr ! j)) (j # js), m)"
    using here m by (simp add: shl_uint_eq)
  moreover have "bit m k \<longleftrightarrow> bit acc k \<or> (k < LENGTH('a) \<and> (\<exists>i\<in>set (j # js). arr ! i = k))" for k
    using mb by (auto simp: bit_or_iff bit_exp_iff)
  ultimately show ?case by blast
qed


lemma upt_bounded: "(\<forall>j\<in>set [0..<len]. P j) \<longleftrightarrow> (\<forall>j<len. P j)"
  by auto

text \<open>
  C2. \<open>ForceM\<close> on a list of more than one qubit with \<open>values\<close> given (all the
  shifts being defined): the value returned has exactly the bits \<open>bits[j]\<close> with
  \<open>values[j]\<close> true, the mask has exactly the bits \<open>bits[j]\<close>, \<open>ApplyM\<close> is called
  with the factor \<open>phase / sqrt (ProbMask(regMask, result))\<close>, and the state it is
  called on is the one left by \<open>GetNonunitaryPhase\<close>: no uniform value is drawn and no
  probability array is computed.
\<close>

theorem ForceM_bits_forced:
  fixes e :: "('s, 'a::len word) qengine"
  assumes "1 < len" and "len < 32" and "\<forall>j<len. bits ! j < 32"
  shows "\<exists>result regMask.
           ForceM_bits e bits len (Some vs) s0 =
             (let s1 = normalize_if_needed e s0;
                  phase = fst (GetNonunitaryPhase e s1);
                  s2 = snd (GetNonunitaryPhase e s1);
                  nrmlzr = ProbMask e regMask result s2
              in Some (result, ApplyM e regMask result (phase / complex_of_real (sqrt nrmlzr)) s2))
         \<and> (\<forall>k. bit result k \<longleftrightarrow> k < LENGTH('a) \<and> (\<exists>j<len. vs ! j \<and> bits ! j = k))
         \<and> (\<forall>k. bit regMask k \<longleftrightarrow> k < LENGTH('a) \<and> (\<exists>j<len. bits ! j = k))"
proof -
  from assms(3) have b: "\<forall>j\<in>set [0..<len]. bits ! j < 32"
    by simp
  from powers_loop_uint [OF b, of "[]" 0]
  obtain regMask :: "'a word" where
    pl: "powers_loop shl_uint bits [0..<len] [] 0 = Some ([] @ map (\<lambda>j. 2 ^ (bits ! j)) [0..<len], regMask)"
    and rm: "\<forall>k. bit regMask k \<longleftrightarrow> bit (0 :: 'a word) k \<or> (k < LENGTH('a) \<and> (\<exists>j\<in>set [0..<len]. bits ! j = k))"
    by blast
  from forced_loop_bits [OF b, of vs 0]
  obtain result :: "'a word" where
    fl: "forced_loop bits vs [0..<len] 0 = Some result"
    and rs: "\<forall>k. bit result k \<longleftrightarrow> bit (0 :: 'a word) k \<or> (k < LENGTH('a) \<and> (\<exists>j\<in>set [0..<len]. vs ! j \<and> bits ! j = k))"
    by blast
  from assms(2) obtain lengthPower :: "'a word" where lp: "shl_int len = Some lengthPower"
    by (auto simp: shl_int_def)
  have "ForceM_bits e bits len (Some vs) s0 =
             (let s1 = normalize_if_needed e s0;
                  phase = fst (GetNonunitaryPhase e s1);
                  s2 = snd (GetNonunitaryPhase e s1);
                  nrmlzr = ProbMask e regMask result s2
              in Some (result, ApplyM e regMask result (phase / complex_of_real (sqrt nrmlzr)) s2))"
    using assms(1) pl fl lp
    unfolding ForceM_bits_def Let_def
    by (simp add: case_prod_beta)
  moreover have "\<forall>k. bit result k \<longleftrightarrow> k < LENGTH('a) \<and> (\<exists>j<len. vs ! j \<and> bits ! j = k)"
    using rs by auto
  moreover have "\<forall>k. bit regMask k \<longleftrightarrow> k < LENGTH('a) \<and> (\<exists>j<len. bits ! j = k)"
    using rm by auto
  ultimately show ?thesis by blast
qed

lemma upt_2: "[0..<2] = [0, Suc 0]"
  by (simp add: upt_rec)

theorem ForceM_bits_forced_witness:
  "(1 :: nat) < 2 \<and> (2 :: nat) < 32 \<and> [0, 1 :: nat] ! 0 < 32 \<and> [0, 1 :: nat] ! 1 < 32 \<and>
   ForceM_bits (trace_engine (\<lambda>q. 0) (\<lambda>m p. if m = 3 \<and> p = 1 then 1 / 4 else 0)) [0, 1] 2
       (Some [True, False]) ([], [1 / 2]) =
     Some (1 :: 64 word,
           ([Call_NormalizeState, Call_GetNonunitaryPhase,
             Call_ApplyM 3 1 (1 / complex_of_real (sqrt (1 / 4)))], [1 / 2]))"
proof -
  have h: "\<forall>j<2. [0, 1 :: nat] ! j < 32"
    by (simp add: less_Suc_eq numeral_2_eq_2)
  show ?thesis
    using h ForceM_bits_forced [of 2 "[0, 1]"
      "trace_engine (\<lambda>q. 0) (\<lambda>m p. if m = 3 \<and> p = 1 then 1 / 4 else 0) :: (64 word trace, 64 word) qengine"
      "[True, False]" "([], [1 / 2])"]
    by (simp add: ForceM_bits_def shl_uint_def shl_int_def upt_2 trace_engine_def
        normalize_if_needed_def next_draw_def Let_def)
qed

lemma unat_pow2_le: "unat (2 ^ n :: 'a::len word) \<le> 2 ^ n"
proof (cases "n < LENGTH('a)")
  case True
  then have "unat (2 ^ n :: 'a word) = 2 ^ n"
    by (simp add: of_nat_inverse)
  then show ?thesis by simp
next
  case False
  then have z: "(2 ^ n :: 'a word) = 0" by simp
  show ?thesis unfolding z by simp
qed

lemma new_real1_array_pow2:
  assumes "n < 31"
  shows "new_real1_array (2 ^ n :: 'a::len word) = Some (\<lambda>_. 0)"
proof -
  have "(2 :: nat) ^ n \<le> 2 ^ 30"
    using assms by (intro power_increasing) simp_all
  with unat_pow2_le [of n, where ?'a = 'a] have "unat (2 ^ n :: 'a word) \<le> 2 ^ 30"
    by (rule order_trans)
  then show ?thesis
    by (simp add: new_real1_array_def)
qed

text \<open>
  \<open>ForceMReg\<close> with \<open>doForce\<close> true on a register of 2 to 30 qubits, where
  \<open>1 << length\<close> is \<open>2 ^ length\<close>: the normaliser keeps its initial value 1, so
  \<open>ApplyM\<close> gets the factor \<open>phase / sqrt 1\<close>, whatever the probability of the forced
  pattern; the mask is \<open>(2 ^ length - 1) << start\<close>, the pattern \<open>result << start\<close>,
  and \<open>result\<close> itself is returned. One uniform value is drawn and discarded.
\<close>

lemma ForceMReg_forced:
  fixes e :: "('s, 'a::len word) qengine"
  assumes "1 < len" and "len < 31" and "start < LENGTH('a)"
  shows "ForceMReg e start len result True s0 =
           (let s1 = normalize_if_needed e s0;
                s2 = snd (Rand e s1);
                phase = fst (GetNonunitaryPhase e s2);
                s3 = snd (GetNonunitaryPhase e s2)
            in Some (result,
                 ApplyM e (push_bit start (2 ^ len - 1)) (push_bit start result)
                   (phase / complex_of_real (sqrt 1)) s3))"
  using assms
  unfolding ForceMReg_def ProbRegAll_def shl_cap_def Let_def
  by (simp add: case_prod_beta shl_int_eq shl_uint_eq new_real1_array_pow2)

lemma ForceMReg_forced_run:
  "(1 :: nat) < 2 \<and> (2 :: nat) < 31 \<and> (1 :: nat) < LENGTH(64) \<and>
   ForceMReg (trace_engine (\<lambda>q. 0) (\<lambda>m p. 1 / 4)) 1 2 (2 :: 64 word) True ([], [1 / 2]) =
     Some (2, ([Call_NormalizeState, Call_Rand, Call_GetNonunitaryPhase,
                Call_ApplyM 6 4 1], []))"
  using ForceMReg_forced [of 2 1
      "trace_engine (\<lambda>q. 0) (\<lambda>m p. 1 / 4) :: (64 word trace, 64 word) qengine" 2 "([], [1 / 2])"]
  by (simp add: trace_engine_def normalize_if_needed_def next_draw_def Let_def)

lemma shl_int_31: "(shl_int 31 :: 64 word option) = Some 0xFFFFFFFF80000000"
  by (simp add: shl_int_def)

lemma new_real1_array_31: "new_real1_array (0xFFFFFFFF80000000 :: 64 word) = None"
  by (simp add: new_real1_array_def)

text \<open>
  C9, at a register of 31 qubits and a 64-bit \<open>bitCapInt\<close>. \<open>1 << 31\<close> is done on
  \<open>int\<close>: its value \<open>-2 ^ 31\<close>, converted to 64 bits, is \<open>2 ^ 64 - 2 ^ 31\<close>. The mask
  \<open>(lengthPower - 1) << start\<close> is then, at \<open>start = 0\<close>, \<open>2 ^ 64 - 2 ^ 31 - 1\<close> and not
  \<open>2 ^ 31 - 1\<close>; and the array \<open>new real1[lengthPower]()\<close>, which is allocated before
  \<open>doForce\<close> is looked at, has a size in bytes that does not fit \<open>size_t\<close>, so the
  allocation throws: \<open>ForceMReg\<close> returns no result and \<open>ApplyM\<close> is not called,
  whatever the engine, the start, the forced result and the state.
\<close>

theorem ForceMReg_overflow_31:
  "(shl_int 31 :: 64 word option) = Some 0xFFFFFFFF80000000 \<and>
   shl_cap (0xFFFFFFFF80000000 - 1 :: 64 word) 0 = Some 0xFFFFFFFF7FFFFFFF \<and>
   (0xFFFFFFFF7FFFFFFF :: 64 word) \<noteq> 2 ^ 31 - 1 \<and>
   new_real1_array (0xFFFFFFFF80000000 :: 64 word) = None \<and>
   (\<forall>(e :: ('s, 64 word) qengine) start result s0.
      ForceMReg e start 31 result True s0 = None)"
  by (simp add: ForceMReg_def shl_int_31 new_real1_array_31 shl_cap_def Let_def case_prod_beta
      split: option.splits)

section \<open>\<open>ProbMaskAll\<close>: the enumeration of the patterns of a mask\<close>

lemma lowest_bit_props:
  fixes v :: "'a::len word"
  assumes "v \<noteq> 0"
  shows "bit v (lowest_bit v)" and "\<And>n. n < lowest_bit v \<Longrightarrow> \<not> bit v n"
proof -
  from assms obtain n where "bit v n"
    by (auto simp: bit_eq_iff)
  then show "bit v (lowest_bit v)"
    unfolding lowest_bit_def by (rule LeastI)
  show "\<And>n. n < lowest_bit v \<Longrightarrow> \<not> bit v n"
    unfolding lowest_bit_def by (rule not_less_Least)
qed

lemma word_minus_one_bits:
  fixes v :: "'a::len word"
  assumes "v \<noteq> 0"
  shows "bit (v - 1) n \<longleftrightarrow> n < LENGTH('a) \<and> (n < lowest_bit v \<or> (lowest_bit v < n \<and> bit v n))"
proof -
  define l where "l = lowest_bit v"
  define A where "A = v AND NOT (2 ^ l)"
  have bl: "bit v l" and below: "\<And>n. n < l \<Longrightarrow> \<not> bit v n"
    using lowest_bit_props [OF assms] by (simp_all add: l_def)
  have lw: "l < LENGTH('a)"
    using bl by (rule bit_imp_le_length)
  have bitA: "bit A k \<longleftrightarrow> l < k \<and> bit v k" for k
  proof -
    consider "k < l" | "k = l" | "l < k" by arith
    then show ?thesis
      using below by cases (auto simp: A_def bit_and_iff bit_not_iff bit_exp_iff dest: bit_imp_le_length)
  qed
  have "v = A OR 2 ^ l"
  proof (rule bit_word_eqI)
    fix k assume "k < LENGTH('a)"
    consider "k < l" | "k = l" | "l < k" by arith
    then show "bit v k \<longleftrightarrow> bit (A OR 2 ^ l) k"
      using bl below lw by cases (auto simp: bit_or_iff bitA bit_exp_iff)
  qed
  also have "\<dots> = A + 2 ^ l"
    by (rule disjunctive_add_eq_or [symmetric], rule bit_word_eqI)
      (auto simp: bit_and_iff bitA bit_exp_iff)
  finally have "v - 1 = A + (2 ^ l - 1)"
    by simp
  also have "\<dots> = A + mask l"
    by (simp add: mask_eq_exp_minus_1)
  also have "\<dots> = A OR mask l"
    by (rule disjunctive_add_eq_or, rule bit_word_eqI)
      (auto simp: bit_and_iff bitA bit_mask_iff)
  finally have "bit (v - 1) n \<longleftrightarrow> bit (A OR mask l) n"
    by simp
  then show ?thesis
    using lw by (auto simp: bit_or_iff bitA bit_mask_iff l_def [symmetric] dest: bit_imp_le_length)
qed

lemma clear_lowest_bits:
  fixes v :: "'a::len word"
  assumes "v \<noteq> 0"
  shows "bit (v AND (v - 1)) n \<longleftrightarrow> bit v n \<and> n \<noteq> lowest_bit v"
proof -
  have "bit (v - 1) n \<longleftrightarrow> n < LENGTH('a) \<and> (n < lowest_bit v \<or> (lowest_bit v < n \<and> bit v n))"
    by (rule word_minus_one_bits [OF assms])
  then show ?thesis
    using lowest_bit_props(1) [OF assms] lowest_bit_props(2) [OF assms, of n]
    by (auto simp: bit_and_iff dest: bit_imp_le_length)
qed

lemma isolate_lowest:
  fixes v :: "'a::len word"
  assumes "v \<noteq> 0"
  shows "((v AND (v - 1)) XOR v) AND v = 2 ^ lowest_bit v"
proof (rule bit_word_eqI)
  fix n assume "n < LENGTH('a)"
  then show "bit (((v AND (v - 1)) XOR v) AND v) n \<longleftrightarrow> bit (2 ^ lowest_bit v :: 'a word) n"
    using lowest_bit_props(1) [OF assms] clear_lowest_bits [OF assms, of n]
    by (auto simp: bit_and_iff bit_xor_iff bit_exp_iff)
qed

lemma filter_upt_split:
  "n < w \<Longrightarrow> filter P [0..<w] = filter P [0..<n] @ (if P n then [n] else []) @ filter P [Suc n..<w]"
proof -
  assume "n < w"
  then have "[0..<w] = [0..<n] @ n # [Suc n..<w]"
    using upt_add_eq_append [of 0 n "w - n"] by (simp add: upt_conv_Cons)
  then show ?thesis by simp
qed

lemma mask_bits_clear_lowest:
  fixes v :: "'a::len word"
  assumes "v \<noteq> 0"
  shows "mask_bits v = lowest_bit v # mask_bits (v AND (v - 1))"
proof -
  let ?l = "lowest_bit v"
  have l: "bit v ?l" and below: "\<And>n. n < ?l \<Longrightarrow> \<not> bit v n"
    using lowest_bit_props [OF assms] by auto
  have lw: "?l < LENGTH('a)" using l by (rule bit_imp_le_length)
  have a: "filter (bit v) [0..<?l] = []" using below by (auto simp: filter_empty_conv)
  have b: "filter (bit (v AND (v - 1))) [0..<?l] = []"
    using below by (auto simp: filter_empty_conv clear_lowest_bits [OF assms])
  have c: "filter (bit (v AND (v - 1))) [Suc ?l..<LENGTH('a)] = filter (bit v) [Suc ?l..<LENGTH('a)]"
    by (rule filter_cong) (auto simp: clear_lowest_bits [OF assms])
  show ?thesis
    unfolding mask_bits_def
    by (simp add: filter_upt_split [OF lw] a b c l clear_lowest_bits [OF assms])
qed

lemma mask_bits_0: "mask_bits (0 :: 'a::len word) = []"
  by (simp add: mask_bits_def)

lemma count_loop_eq: "count_loop v len = len + length (mask_bits v)"
proof (induction v len rule: count_loop.induct)
  case (1 v len)
  show ?case
  proof (cases "v = 0")
    case True
    then show ?thesis by (subst count_loop.simps) (simp add: mask_bits_0)
  next
    case False
    with 1 have "count_loop (v AND (v - 1)) (len + 1) = len + 1 + length (mask_bits (v AND (v - 1)))"
      by simp
    with False show ?thesis
      by (subst count_loop.simps) (simp add: mask_bits_clear_lowest [OF False])
  qed
qed

lemma bit_imp_pow2_le: "bit (m :: 'a::len word) n \<Longrightarrow> 2 ^ n \<le> m"
proof -
  assume b: "bit m n"
  have "m AND 2 ^ n = 2 ^ n"
    by (rule bit_word_eqI) (use b in \<open>auto simp: bit_and_iff bit_exp_iff\<close>)
  moreover have "m AND 2 ^ n \<le> m"
    by (rule word_and_le2)
  ultimately show ?thesis by simp
qed

lemma no_high_bits_less:
  fixes m :: "'a::len word"
  assumes "\<And>n. k \<le> n \<Longrightarrow> \<not> bit m n" and "k < LENGTH('a)"
  shows "m < 2 ^ k"
proof -
  have "m AND mask k = m"
    by (rule bit_word_eqI) (use assms(1) in \<open>auto simp: bit_and_iff bit_mask_iff not_le [symmetric]\<close>)
  moreover have "m AND mask k < 2 ^ k"
    using assms(2) by (rule and_mask_less')
  ultimately show ?thesis by simp
qed

lemma pow2_word_mono:
  assumes "l \<le> k" and "k < LENGTH('a)"
  shows "(2 :: 'a::len word) ^ l \<le> 2 ^ k"
proof (cases "l = k")
  case True
  then show ?thesis by simp
next
  case False
  with assms(1) have "l < k" by simp
  then have "\<And>n. k \<le> n \<Longrightarrow> \<not> bit ((2 :: 'a word) ^ l) n"
    by (simp add: bit_exp_iff)
  then have "(2 :: 'a word) ^ l < 2 ^ k"
    using assms(2) by (rule no_high_bits_less)
  then show ?thesis by simp
qed

lemma pow2_less_iff:
  fixes m :: "'a::len word"
  assumes "k < LENGTH('a)" and "\<not> bit m k"
  shows "2 ^ k < m \<longleftrightarrow> (\<exists>n. k < n \<and> bit m n)"
proof
  assume lt: "2 ^ k < m"
  show "\<exists>n. k < n \<and> bit m n"
  proof (rule ccontr)
    assume "\<not> (\<exists>n. k < n \<and> bit m n)"
    with assms(2) have "\<And>n. k \<le> n \<Longrightarrow> \<not> bit m n"
      by (metis le_neq_implies_less)
    then have "m < 2 ^ k" using assms(1) by (rule no_high_bits_less)
    with lt show False by simp
  qed
next
  assume "\<exists>n. k < n \<and> bit m n"
  then obtain n where kn: "k < n" and b: "bit m n" by blast
  have nw: "n < LENGTH('a)" using b by (rule bit_imp_le_length)
  have "(2 :: 'a word) ^ k \<le> 2 ^ n"
    using kn nw by (simp add: pow2_word_mono)
  moreover have "(2 :: 'a word) ^ k \<noteq> 2 ^ n"
  proof
    assume "(2 :: 'a word) ^ k = 2 ^ n"
    then have "bit ((2 :: 'a word) ^ k) n \<longleftrightarrow> bit ((2 :: 'a word) ^ n) n" by simp
    with kn nw show False by (simp add: bit_exp_iff)
  qed
  ultimately have "(2 :: 'a word) ^ k < 2 ^ n" by simp
  also have "2 ^ n \<le> m" using b by (rule bit_imp_pow2_le)
  finally show "2 ^ k < m" .
qed

lemma skip_loop_eq:
  "skip_loop m v acc = acc @ map (\<lambda>k. 2 ^ k) (filter (\<lambda>k. (2 :: 'a::len word) ^ k < m) (mask_bits v))"
proof (induction m v acc rule: skip_loop.induct)
  case (1 m v acc)
  show ?case
  proof (cases "v = 0")
    case True
    then show ?thesis by (subst skip_loop.simps) (simp add: mask_bits_0)
  next
    case False
    let ?l = "lowest_bit v"
    let ?v' = "v AND (v - 1)"
    have pw: "(?v' XOR v) AND v = 2 ^ ?l"
      by (rule isolate_lowest [OF False])
    have mb: "mask_bits v = ?l # mask_bits ?v'"
      by (rule mask_bits_clear_lowest [OF False])
    show ?thesis
    proof (cases "(2 :: 'a word) ^ ?l < m")
      case True
      have "skip_loop m ?v' (acc @ [2 ^ ?l])
          = (acc @ [2 ^ ?l]) @ map (\<lambda>k. 2 ^ k) (filter (\<lambda>k. (2 :: 'a word) ^ k < m) (mask_bits ?v'))"
        using "1.IH"(1) [OF False refl refl refl] True pw by simp
      then show ?thesis
        using False True pw mb by (subst skip_loop.simps) (simp add: Let_def)
    next
      case nlt: False
      have "\<not> (2 :: 'a word) ^ k < m" if "k \<in> set (mask_bits v)" for k
      proof -
        from that have kw: "k < LENGTH('a)" and bk: "bit v k"
          by (auto simp: mask_bits_def)
        have "?l \<le> k"
          using lowest_bit_props(2) [OF False, of k] bk by (meson not_le)
        then have "(2 :: 'a word) ^ ?l \<le> 2 ^ k"
          using kw by (rule pow2_word_mono)
        with nlt show ?thesis by simp
      qed
      then have "filter (\<lambda>k. (2 :: 'a word) ^ k < m) (mask_bits v) = []"
        by (auto simp: filter_empty_conv)
      moreover have "skip_loop m 0 acc = acc"
        by (subst skip_loop.simps) simp
      ultimately show ?thesis
        using False nlt pw by (subst skip_loop.simps) (simp add: Let_def)
    qed
  qed
qed

lemma bit_shl1: "bit (push_bit 1 z :: 'a::len word) n \<longleftrightarrow> 0 < n \<and> n < LENGTH('a) \<and> bit z (n - 1)"
  unfolding bit_push_bit_iff possible_bit_word by auto

lemma bit_double_word: "bit (z * 2 :: 'a::len word) n \<longleftrightarrow> 0 < n \<and> n < LENGTH('a) \<and> bit z (n - 1)"
  using bit_shl1 [of z n] by simp

lemma bit_open_gap:
  "bit (open_gap k (y :: 'a::len word)) n \<longleftrightarrow>
     n < LENGTH('a) \<and> ((n < k \<and> bit y n) \<or> (k < n \<and> bit y (n - 1)))"
  by (cases n) (auto simp: open_gap_def bit_or_iff bit_and_iff bit_mask_iff bit_double_word
      bit_not_iff dest: bit_imp_le_length)

lemma open_gap_low:
  assumes "\<And>n. bit (y :: 'a::len word) n \<Longrightarrow> n < k"
  shows "open_gap k y = y"
proof (rule bit_word_eqI)
  fix n assume "n < LENGTH('a)"
  then show "bit (open_gap k y) n \<longleftrightarrow> bit y n"
    using assms [of n] assms [of "n - 1"] by (auto simp: bit_open_gap)
qed

lemma fold_open_gap_low:
  assumes "\<And>n k. bit (y :: 'a::len word) n \<Longrightarrow> k \<in> set ks \<Longrightarrow> n < k"
  shows "fold open_gap ks y = y"
  using assms by (induction ks) (simp_all add: open_gap_low)

lemma pow2_minus_1_mask: "(2 :: 'a::len word) ^ k - 1 = mask k"
  by (simp add: mask_eq_exp_minus_1)

lemma expand_step:
  fixes i h :: "'a::len word"
  assumes "\<And>n. bit i n \<Longrightarrow> n < k"
  shows "(i OR (h AND mask k)) OR push_bit 1 (h XOR (h AND mask k)) = open_gap k (i OR h)"
proof (rule bit_word_eqI)
  fix n assume "n < LENGTH('a)"
  then show "bit ((i OR (h AND mask k)) OR push_bit 1 (h XOR (h AND mask k))) n
      \<longleftrightarrow> bit (open_gap k (i OR h)) n"
    using assms [of n] assms [of "n - 1"]
    by (cases n) (auto simp: bit_open_gap bit_or_iff bit_and_iff bit_xor_iff bit_mask_iff bit_double_word)
qed

lemma expand_loop_fold:
  fixes i h :: "'a::len word"
  assumes "sorted_wrt (<) ks"
    and "\<And>n k. bit i n \<Longrightarrow> k \<in> set ks \<Longrightarrow> n < k"
  shows "(case expand_loop (map (\<lambda>k. 2 ^ k) ks) h i of (i', h') \<Rightarrow> i' OR h') = fold open_gap ks (i OR h)"
  using assms
proof (induction ks arbitrary: i h)
  case Nil
  then show ?case by simp
next
  case (Cons k ks)
  let ?iLow = "h AND mask k"
  let ?i' = "i OR ?iLow"
  let ?h' = "push_bit 1 (h XOR ?iLow)"
  have ik: "\<And>n. bit i n \<Longrightarrow> n < k"
    using Cons.prems(2) by simp
  have step: "?i' OR ?h' = open_gap k (i OR h)"
    using ik by (rule expand_step)
  have i'k: "\<And>n. bit ?i' n \<Longrightarrow> n < k"
    using ik by (auto simp: bit_or_iff bit_and_iff bit_mask_iff)
  have above: "\<And>k'. k' \<in> set ks \<Longrightarrow> k < k'"
    using Cons.prems(1) by simp
  have i'ks: "\<And>n k'. bit ?i' n \<Longrightarrow> k' \<in> set ks \<Longrightarrow> n < k'"
    using i'k above by (meson less_trans)
  have srt: "sorted_wrt (<) ks"
    using Cons.prems(1) by simp
  have eq: "expand_loop (map (\<lambda>k. 2 ^ k) (k # ks)) h i =
      (if ?h' = 0 then (?i', ?h') else expand_loop (map (\<lambda>k. 2 ^ k) ks) ?h' ?i')"
    by (simp only: list.map expand_loop.simps Let_def pow2_minus_1_mask)
  show ?case
  proof (cases "?h' = 0")
    case True
    have "fold open_gap ks ?i' = ?i'"
      using i'ks by (rule fold_open_gap_low)
    moreover have "expand_loop (map (\<lambda>k. 2 ^ k) (k # ks)) h i = (?i', ?h')"
      unfolding eq using True by (rule if_P)
    moreover have "?i' OR ?h' = ?i'"
      by (subst True) (rule or.right_neutral)
    ultimately show ?thesis
      using step by (simp only: fold_simps prod.case o_apply)
  next
    case False
    have "(case expand_loop (map (\<lambda>k. 2 ^ k) ks) ?h' ?i' of (i', h') \<Rightarrow> i' OR h') = fold open_gap ks (?i' OR ?h')"
      using srt i'ks by (rule Cons.IH)
    moreover have "expand_loop (map (\<lambda>k. 2 ^ k) (k # ks)) h i = expand_loop (map (\<lambda>k. 2 ^ k) ks) ?h' ?i'"
      unfolding eq using False by (rule if_not_P)
    ultimately show ?thesis
      using step by (simp only: fold_simps o_apply)
  qed
qed

lemma length_filter_between:
  assumes "sorted_wrt (<) ks" and "\<And>k'. k' \<in> set ks \<Longrightarrow> k < k'" and "k < n"
  shows "length (filter (\<lambda>j. j < n) ks) < n - k"
proof -
  have d: "distinct (filter (\<lambda>j. j < n) ks)"
    using assms(1) by (simp add: strict_sorted_iff)
  have "set (filter (\<lambda>j. j < n) ks) \<subseteq> {Suc k..<n}"
    using assms(2) by (auto simp: Suc_le_eq)
  then have "card (set (filter (\<lambda>j. j < n) ks)) \<le> card {Suc k..<n}"
    by (rule card_mono [rotated]) simp
  moreover have "card (set (filter (\<lambda>j. j < n) ks)) = length (filter (\<lambda>j. j < n) ks)"
    using d by (rule distinct_card)
  ultimately have "length (filter (\<lambda>j. j < n) ks) \<le> n - Suc k"
    by (simp only: card_atLeastLessThan)
  with assms(3) show ?thesis by simp
qed

lemma bit_fold_open_gap:
  fixes y :: "'a::len word"
  assumes "sorted_wrt (<) ks"
  shows "bit (fold open_gap ks y) n \<longleftrightarrow>
           n < LENGTH('a) \<and> n \<notin> set ks \<and> bit y (n - length (filter (\<lambda>k. k < n) ks))"
  using assms
proof (induction ks arbitrary: y)
  case Nil
  then show ?case by (auto dest: bit_imp_le_length)
next
  case (Cons k ks)
  have srt: "sorted_wrt (<) ks" and above: "\<And>k'. k' \<in> set ks \<Longrightarrow> k < k'"
    using Cons.prems by simp_all
  let ?c = "length (filter (\<lambda>j. j < n) ks)"
  have IH: "bit (fold open_gap ks (open_gap k y)) n \<longleftrightarrow>
           n < LENGTH('a) \<and> n \<notin> set ks \<and> bit (open_gap k y) (n - ?c)"
    using srt by (rule Cons.IH)
  consider "n < k" | "n = k" | "k < n" by arith
  then show ?case
  proof cases
    case 1
    have "\<forall>x\<in>set ks. \<not> x < n"
      using above 1 by (metis less_asym less_trans)
    then have "filter (\<lambda>j. j < n) ks = []"
      by (simp add: filter_empty_conv)
    with 1 IH show ?thesis
      using above [of n] by (auto simp: bit_open_gap)
  next
    case 2
    have "\<forall>x\<in>set ks. \<not> x < n"
      using above 2 by (metis less_asym)
    then have "filter (\<lambda>j. j < n) ks = []"
      by (simp add: filter_empty_conv)
    with 2 IH show ?thesis
      by (auto simp: bit_open_gap)
  next
    case 3
    have c: "?c < n - k"
      using srt above 3 by (rule length_filter_between)
    then have "k < n - ?c" by simp
    moreover have "n - ?c - 1 = n - Suc ?c" by simp
    ultimately show ?thesis
      using 3 IH by (auto simp: bit_open_gap dest: bit_imp_le_length)
  qed
qed

lemma skip_loop_positions:
  "skip_loop m (NOT m) [] = map (\<lambda>k. 2 ^ k) (skip_positions m)"
  by (simp only: skip_loop_eq skip_positions_def append_Nil)

lemma sorted_skip_positions: "sorted_wrt (<) (skip_positions m)"
  unfolding skip_positions_def mask_bits_def
  by (intro sorted_wrt_filter) (rule sorted_wrt_upt)

lemma set_skip_positions:
  "k \<in> set (skip_positions (m :: 'a::len word)) \<longleftrightarrow>
     k < LENGTH('a) \<and> \<not> bit m k \<and> (\<exists>n. k < n \<and> bit m n)"
proof (cases "k < LENGTH('a) \<and> \<not> bit m k")
  case True
  then show ?thesis
    using pow2_less_iff [of k m]
    by (auto simp: skip_positions_def mask_bits_def bit_not_iff)
next
  case False
  then show ?thesis
    by (auto simp: skip_positions_def mask_bits_def bit_not_iff)
qed

lemma expand_pattern_fold:
  "expand_pattern (skip_loop m (NOT m) []) lcv = fold open_gap (skip_positions m) lcv"
proof -
  have "(case expand_loop (map (\<lambda>k. 2 ^ k) (skip_positions m)) lcv 0 of (i', h') \<Rightarrow> i' OR h')
      = fold open_gap (skip_positions m) (0 OR lcv)"
    by (rule expand_loop_fold [OF sorted_skip_positions]) simp
  then show ?thesis
    by (simp only: expand_pattern_def skip_loop_positions or.left_neutral Let_def)
qed

lemma skips_below_mask_bit:
  fixes m :: "'a::len word"
  assumes "bit m n"
  shows "filter (\<lambda>k. k < n) (skip_positions m) = filter (\<lambda>k. \<not> bit m k) [0..<n]"
proof -
  have nw: "n < LENGTH('a)" using assms by (rule bit_imp_le_length)
  have "filter (\<lambda>k. k < n) (skip_positions m)
      = filter (\<lambda>k. k < n \<and> (2 :: 'a word) ^ k < m \<and> bit (NOT m) k) [0..<LENGTH('a)]"
    by (simp add: skip_positions_def mask_bits_def conj_commute conj_left_commute)
  also have "\<dots> = filter (\<lambda>k. k < n \<and> \<not> bit m k) [0..<LENGTH('a)]"
  proof (rule filter_cong [OF refl])
    fix k assume "k \<in> set [0..<LENGTH('a)]"
    then have kw: "k < LENGTH('a)" by simp
    show "(k < n \<and> (2 :: 'a word) ^ k < m \<and> bit (NOT m) k) \<longleftrightarrow> (k < n \<and> \<not> bit m k)"
      using kw assms pow2_less_iff [of k m] by (auto simp: bit_not_iff)
  qed
  also have "\<dots> = filter (\<lambda>k. \<not> bit m k) (filter (\<lambda>k. k < n) [0..<LENGTH('a)])"
    by (simp add: conj_commute)
  also have "filter (\<lambda>k. k < n) [0..<LENGTH('a)] = [0..<n]"
    using nw filter_upt_split [of n "LENGTH('a)" "\<lambda>k. k < n"]
    by (simp add: filter_empty_conv) 
  finally show ?thesis .
qed

lemma rank_skips:
  fixes m :: "'a::len word"
  assumes "bit m n"
  shows "n - length (filter (\<lambda>k. k < n) (skip_positions m)) = rank m n"
proof -
  have "length (filter (bit m) [0..<n]) + length (filter (\<lambda>k. \<not> bit m k) [0..<n]) = n"
    using sum_length_filter_compl [of "bit m" "[0..<n]"] by simp
  then show ?thesis
    by (simp add: skips_below_mask_bit [OF assms] rank_def)
qed

lemma less_pow2_bit:
  fixes lcv :: "'a::len word"
  assumes "lcv < 2 ^ pc" and "bit lcv j"
  shows "j < pc"
proof -
  have eq: "lcv AND mask pc = lcv"
    using assms(1) by (rule less_mask_eq)
  have "bit (lcv AND mask pc) j"
    using assms(2) by (simp only: eq)
  then show ?thesis
    by (simp add: bit_and_iff bit_mask_iff)
qed

lemma skips_below:
  fixes m :: "'a::len word"
  assumes "n < LENGTH('a)"
  shows "filter (\<lambda>k. k < n) (skip_positions m)
       = filter (\<lambda>k. (2 :: 'a word) ^ k < m) (filter (\<lambda>k. \<not> bit m k) [0..<n])"
proof -
  have "filter (\<lambda>k. k < n) (skip_positions m)
      = filter (\<lambda>k. k < n \<and> (2 :: 'a word) ^ k < m \<and> bit (NOT m) k) [0..<LENGTH('a)]"
    by (simp add: skip_positions_def mask_bits_def conj_commute conj_left_commute)
  also have "\<dots> = filter (\<lambda>k. k < n \<and> (2 :: 'a word) ^ k < m \<and> \<not> bit m k) [0..<LENGTH('a)]"
    by (rule filter_cong [OF refl]) (auto simp: bit_not_iff)
  also have "\<dots> = filter (\<lambda>k. (2 :: 'a word) ^ k < m) (filter (\<lambda>k. \<not> bit m k) (filter (\<lambda>k. k < n) [0..<LENGTH('a)]))"
    by (simp add: conj_commute conj_left_commute)
  also have "filter (\<lambda>k. k < n) [0..<LENGTH('a)] = [0..<n]"
    using assms filter_upt_split [of n "LENGTH('a)" "\<lambda>k. k < n"]
    by (simp add: filter_empty_conv)
  finally show ?thesis .
qed

lemma rank_top:
  fixes m :: "'a::len word"
  assumes "n < LENGTH('a)" and "\<And>j. n \<le> j \<Longrightarrow> \<not> bit m j"
  shows "rank m n = length (mask_bits m)"
proof -
  have "filter (bit m) [Suc n..<LENGTH('a)] = []"
    using assms(2) by (auto simp: filter_empty_conv)
  then show ?thesis
    using assms(2) [of n] filter_upt_split [OF assms(1), of "bit m"]
    by (simp add: rank_def mask_bits_def)
qed

lemma expand_pattern_bits:
  fixes m lcv :: "'a::len word"
  assumes "lcv < 2 ^ length (mask_bits m)"
  shows "bit (expand_pattern (skip_loop m (NOT m) []) lcv) n \<longleftrightarrow> bit m n \<and> bit lcv (rank m n)"
proof -
  let ?c = "length (filter (\<lambda>k. k < n) (skip_positions m))"
  have fold: "bit (expand_pattern (skip_loop m (NOT m) []) lcv) n \<longleftrightarrow>
      n < LENGTH('a) \<and> n \<notin> set (skip_positions m) \<and> bit lcv (n - ?c)"
    unfolding expand_pattern_fold by (rule bit_fold_open_gap [OF sorted_skip_positions])
  show ?thesis
  proof (cases "bit m n")
    case True
    then have "n < LENGTH('a)" by (rule bit_imp_le_length)
    moreover have "n \<notin> set (skip_positions m)"
      using True by (simp add: set_skip_positions)
    ultimately show ?thesis
      using True fold by (simp add: rank_skips [OF True])
  next
    case False
    have "\<not> bit lcv (n - ?c)" if nw: "n < LENGTH('a)" and ns: "n \<notin> set (skip_positions m)"
    proof -
      have top: "\<And>j. n \<le> j \<Longrightarrow> \<not> bit m j"
        using False nw ns by (metis set_skip_positions le_neq_implies_less)
      have "?c \<le> length (filter (\<lambda>k. \<not> bit m k) [0..<n])"
        unfolding skips_below [OF nw] by (rule length_filter_le)
      moreover have "length (filter (bit m) [0..<n]) + length (filter (\<lambda>k. \<not> bit m k) [0..<n]) = n"
        using sum_length_filter_compl [of "bit m" "[0..<n]"] by simp
      ultimately have "rank m n \<le> n - ?c"
        by (simp add: rank_def)
      then have "length (mask_bits m) \<le> n - ?c"
        by (simp add: rank_top [OF nw top])
      then show ?thesis
        using less_pow2_bit [OF assms, of "n - ?c"] by auto
    qed
    with False fold show ?thesis by auto
  qed
qed

lemma mask_bits_split:
  fixes m :: "'a::len word"
  assumes "bit m n"
  shows "mask_bits m = filter (bit m) [0..<n] @ n # filter (bit m) [Suc n..<LENGTH('a)]"
  using assms filter_upt_split [OF bit_imp_le_length [OF assms], of "bit m"]
  by (simp add: mask_bits_def)

lemma nth_mask_bits_rank:
  fixes m :: "'a::len word"
  assumes "bit m n"
  shows "rank m n < length (mask_bits m)" and "mask_bits m ! rank m n = n"
  by (simp_all add: mask_bits_split [OF assms] rank_def nth_append)

lemma distinct_mask_bits: "distinct (mask_bits m)"
  by (simp add: mask_bits_def)

lemma rank_nth_mask_bits:
  fixes m :: "'a::len word"
  assumes "j < length (mask_bits m)"
  shows "bit m (mask_bits m ! j)" and "rank m (mask_bits m ! j) = j"
proof -
  have "mask_bits m ! j \<in> set (mask_bits m)"
    using assms by (rule nth_mem)
  then show b: "bit m (mask_bits m ! j)"
    by (simp add: mask_bits_def)
  from nth_mask_bits_rank [OF b] assms show "rank m (mask_bits m ! j) = j"
    using distinct_mask_bits [of m] by (simp add: nth_eq_iff_index_eq)
qed

lemma bit_compress:
  "bit (compress m x :: 'a::len word) j \<longleftrightarrow>
     j < LENGTH('a) \<and> j < length (mask_bits m) \<and> bit x (mask_bits m ! j)"
  by (auto simp: compress_def bit_horner_sum_bit_iff)

lemma compress_less:
  fixes m :: "'a::len word"
  assumes "length (mask_bits m) < LENGTH('a)"
  shows "compress m x < 2 ^ length (mask_bits m)"
  by (rule no_high_bits_less) (auto simp: bit_compress assms)

lemma expand_compress:
  fixes m x :: "'a::len word"
  assumes "length (mask_bits m) < LENGTH('a)" and "x AND NOT m = 0"
  shows "expand_pattern (skip_loop m (NOT m) []) (compress m x) = x"
proof (rule bit_word_eqI)
  fix n assume "n < LENGTH('a)"
  have sub: "bit x n \<Longrightarrow> bit m n"
  proof (rule ccontr)
    assume "bit x n" and "\<not> bit m n"
    then have "bit (x AND NOT m) n"
      using \<open>n < LENGTH('a)\<close> by (simp add: bit_and_iff bit_not_iff)
    with assms(2) show False by simp
  qed
  have "bit (expand_pattern (skip_loop m (NOT m) []) (compress m x)) n
      \<longleftrightarrow> bit m n \<and> bit (compress m x) (rank m n)"
    by (rule expand_pattern_bits [OF compress_less [OF assms(1)]])
  also have "\<dots> \<longleftrightarrow> bit m n \<and> bit x n"
    using nth_mask_bits_rank [of m n] assms(1) by (auto simp: bit_compress)
  also have "\<dots> \<longleftrightarrow> bit x n"
    using sub by blast
  finally show "bit (expand_pattern (skip_loop m (NOT m) []) (compress m x)) n \<longleftrightarrow> bit x n" .
qed

lemma compress_expand:
  fixes m lcv :: "'a::len word"
  assumes "lcv < 2 ^ length (mask_bits m)"
  shows "compress m (expand_pattern (skip_loop m (NOT m) []) lcv) = lcv"
proof (rule bit_word_eqI)
  fix j assume "j < LENGTH('a)"
  show "bit (compress m (expand_pattern (skip_loop m (NOT m) []) lcv)) j \<longleftrightarrow> bit lcv j"
    using less_pow2_bit [OF assms, of j] rank_nth_mask_bits [of j m] \<open>j < LENGTH('a)\<close>
    by (auto simp: bit_compress expand_pattern_bits [OF assms])
qed

lemma expand_subset:
  fixes m lcv :: "'a::len word"
  assumes "lcv < 2 ^ length (mask_bits m)"
  shows "expand_pattern (skip_loop m (NOT m) []) lcv AND NOT m = 0"
  by (rule bit_word_eqI) (simp add: bit_and_iff bit_not_iff expand_pattern_bits [OF assms])

lemma expand_pattern_bij:
  fixes m :: "'a::len word"
  assumes "length (mask_bits m) < LENGTH('a)"
  shows "bij_betw (expand_pattern (skip_loop m (NOT m) []))
           {lcv. lcv < 2 ^ length (mask_bits m)} {x. x AND NOT m = 0}"
proof (rule bij_betw_byWitness [where f' = "compress m"])
  show "\<forall>a\<in>{lcv. lcv < 2 ^ length (mask_bits m)}.
      compress m (expand_pattern (skip_loop m (NOT m) []) a) = a"
    by (simp add: compress_expand)
  show "\<forall>a'\<in>{x. x AND NOT m = 0}. expand_pattern (skip_loop m (NOT m) []) (compress m a') = a'"
    using assms by (simp add: expand_compress)
  show "expand_pattern (skip_loop m (NOT m) []) ` {lcv. lcv < 2 ^ length (mask_bits m)}
      \<subseteq> {x. x AND NOT m = 0}"
    by (auto simp: expand_subset)
  show "compress m ` {x. x AND NOT m = 0} \<subseteq> {lcv. lcv < 2 ^ length (mask_bits m)}"
    using assms by (auto simp: compress_less)
qed

lemma fill_loop_eq:
  "lcv \<le> lengthPower \<Longrightarrow>
   fill_loop f lengthPower lcv probsArray i =
     (if unat lcv \<le> i \<and> i < unat lengthPower then f (word_of_nat i) else probsArray i)"
proof (induction f lengthPower lcv probsArray rule: fill_loop.induct)
  case (1 f lengthPower lcv probsArray)
  show ?case
  proof (cases "lcv < lengthPower")
    case True
    have u: "unat (lcv + 1) = unat lcv + 1"
      using True by (rule unat_succ_less)
    have le: "lcv + 1 \<le> lengthPower"
      using True by (simp add: inc_le)
    have "fill_loop f lengthPower (lcv + 1) (probsArray(unat lcv := f lcv)) i =
      (if unat (lcv + 1) \<le> i \<and> i < unat lengthPower then f (word_of_nat i)
       else (probsArray(unat lcv := f lcv)) i)"
      using True le by (rule "1.IH")
    moreover have "fill_loop f lengthPower lcv probsArray
        = fill_loop f lengthPower (lcv + 1) (probsArray(unat lcv := f lcv))"
      using True by (subst fill_loop.simps) (simp only: if_True)
    moreover have "unat lcv < unat lengthPower"
      using True by (simp add: word_less_nat_alt)
    ultimately show ?thesis
      using u by auto
  next
    case False
    have "fill_loop f lengthPower lcv probsArray = probsArray"
      using False by (subst fill_loop.simps) (simp only: if_False)
    moreover from False "1.prems" have "lcv = lengthPower" by simp
    ultimately show ?thesis by simp
  qed
qed

lemma unat_pow2: "n < LENGTH('a) \<Longrightarrow> unat (2 ^ n :: 'a::len word) = 2 ^ n"
  by (simp add: of_nat_inverse)

text \<open>
  For a mask with fewer than 31 set bits (so that \<open>1 << length\<close> is exact) that is
  not the all-ones word: \<open>ProbMaskAll\<close> writes the entries \<open>0 .. 2 ^ popcount - 1\<close> and
  no other, entry \<open>lcv\<close> being \<open>ProbMask\<close> of the pattern that the skip-power list
  expands \<open>lcv\<close> to, and the expansion is a bijection from the enumeration values onto
  the patterns inside the mask.
\<close>

theorem ProbMaskAll_enumerates:
  fixes e :: "('s, 'a::len word) qengine" and m :: "'a word"
  assumes "popcount m < 31" and "popcount m < LENGTH('a)"
  shows "ProbMaskAll e m probsArray s =
           Some (\<lambda>i. if i < 2 ^ popcount m
                      then ProbMask e m (expand_pattern (skip_loop m (NOT m) []) (word_of_nat i)) s
                      else probsArray i)
       \<and> bij_betw (expand_pattern (skip_loop m (NOT m) []))
            {lcv. lcv < 2 ^ popcount m} {pattern. pattern AND NOT m = 0}"
proof -
  have cnt: "count_loop m 0 = popcount m"
    by (simp add: count_loop_eq popcount_def)
  have lp: "(shl_int (popcount m) :: 'a word option) = Some (2 ^ popcount m)"
    using assms(1) by (rule shl_int_eq)
  have u: "unat (2 ^ popcount m :: 'a word) = 2 ^ popcount m"
    using assms(2) by (rule unat_pow2)
  have "fill_loop f (2 ^ popcount m :: 'a word) 0 probsArray
      = (\<lambda>i. if i < 2 ^ popcount m then f (word_of_nat i) else probsArray i)" for f
    by (rule ext) (simp add: fill_loop_eq u)
  then have "ProbMaskAll e m probsArray s =
           Some (\<lambda>i. if i < 2 ^ popcount m
                      then ProbMask e m (expand_pattern (skip_loop m (NOT m) []) (word_of_nat i)) s
                      else probsArray i)"
    by (simp add: ProbMaskAll_def cnt lp Let_def)
  moreover have "bij_betw (expand_pattern (skip_loop m (NOT m) []))
            {lcv. lcv < 2 ^ popcount m} {pattern. pattern AND NOT m = 0}"
    using assms(2) unfolding popcount_def by (rule expand_pattern_bij)
  ultimately show ?thesis by simp
qed

lemma popcount_eval: "popcount m = count_loop m 0"
  by (simp add: count_loop_eq popcount_def)

theorem ProbMaskAll_enumerates_witness:
  "popcount (5 :: 64 word) < 31 \<and> popcount (5 :: 64 word) < LENGTH(64) \<and>
   ProbMaskAll (trace_engine (\<lambda>q. 0) (\<lambda>m p. if p = 4 then 3 / 4 else 1 / 12))
       (5 :: 64 word) (\<lambda>i. 7) ([], []) =
     Some (\<lambda>i. if i < 2 ^ popcount (5 :: 64 word)
                then ProbMask (trace_engine (\<lambda>q. 0) (\<lambda>m p. if p = 4 then 3 / 4 else 1 / 12)) (5 :: 64 word)
                       (expand_pattern (skip_loop 5 (NOT 5) []) (word_of_nat i)) ([], [])
                else 7)
   \<and> map (expand_pattern (skip_loop 5 (NOT 5) [])) [0, 1, 2, 3 :: 64 word] = [0, 1, 4, 5]"
proof -
  have pc: "popcount (5 :: 64 word) = 2"
    by (simp add: popcount_eval count_loop.simps)
  have h1: "popcount (5 :: 64 word) < 31" and h2: "popcount (5 :: 64 word) < LENGTH(64)"
    by (simp_all add: pc)
  have sk: "skip_loop 5 (NOT 5) [] = [2 :: 64 word]"
    by (simp add: skip_loop.simps Let_def)
  have ex: "map (expand_pattern (skip_loop 5 (NOT 5) [])) [0, 1, 2, 3 :: 64 word] = [0, 1, 4, 5]"
    unfolding sk by (simp add: expand_pattern_def)
  note enum = ProbMaskAll_enumerates [OF h1 h2,
      of "trace_engine (\<lambda>q. 0) (\<lambda>m p. if p = 4 then 3 / 4 else 1 / 12)" "\<lambda>i. 7" "([], [])",
      THEN conjunct1]
  from h1 h2 enum ex show ?thesis
    by (simp only: simp_thms)
qed

lemma mask31: "(0x7FFFFFFF :: 64 word) = mask 31"
  by (simp add: mask_eq_exp_minus_1)

lemma filter_less_upt: "n \<le> w \<Longrightarrow> filter (\<lambda>k. k < n) [0..<w] = [0..<n]"
proof -
  assume "n \<le> w"
  then have "[0..<w] = [0..<n] @ [n..<w]"
    using upt_add_eq_append [of 0 n "w - n"] by simp
  then show ?thesis by (simp add: filter_empty_conv)
qed

lemma popcount_mask31: "popcount (0x7FFFFFFF :: 64 word) = 31"
proof -
  have "mask_bits (mask 31 :: 64 word) = filter (\<lambda>k. k < 31) [0..<64]"
    unfolding mask_bits_def by (rule filter_cong) (auto simp: bit_mask_iff)
  also have "\<dots> = [0..<31]"
    by (rule filter_less_upt) simp
  finally show ?thesis
    by (simp add: popcount_def mask31)
qed

text \<open>
  C1, at a mask with 31 set bits and a 64-bit \<open>bitCapInt\<close>. The count of the set
  bits is 31, and \<open>1 << 31\<close> is done on \<open>int\<close>: its value \<open>-2 ^ 31\<close>, converted to
  64 bits, is \<open>2 ^ 64 - 2 ^ 31\<close>, not \<open>2 ^ 31\<close>. The loop therefore does not stop after
  the \<open>2 ^ 31\<close> entries \<open>0 .. 2 ^ 31 - 1\<close>: the entry at index \<open>2 ^ 31\<close> is written
  as well.
\<close>

theorem ProbMaskAll_overflow_31:
  "popcount (0x7FFFFFFF :: 64 word) = 31 \<and>
   (\<exists>probs'. ProbMaskAll (trace_engine (\<lambda>q. 0) (\<lambda>m p. 1)) (0x7FFFFFFF :: 64 word) (\<lambda>i. 0) ([], [])
        = Some probs' \<and> probs' (2 ^ 31) = 1)"
proof -
  let ?e = "trace_engine (\<lambda>q. 0) (\<lambda>m p. 1) :: (64 word trace, 64 word) qengine"
  let ?f = "\<lambda>lcv. ProbMask ?e 0x7FFFFFFF (expand_pattern (skip_loop 0x7FFFFFFF (NOT 0x7FFFFFFF) []) lcv) ([], [])"
  have cnt: "count_loop (0x7FFFFFFF :: 64 word) 0 = 31"
    using popcount_mask31 by (simp add: popcount_eval)
  have run: "ProbMaskAll ?e 0x7FFFFFFF (\<lambda>i. 0) ([], [])
      = Some (fill_loop ?f 0xFFFFFFFF80000000 0 (\<lambda>i. 0))"
    by (simp only: ProbMaskAll_def cnt shl_int_31 Let_def option.case)
  have "fill_loop ?f 0xFFFFFFFF80000000 0 (\<lambda>i. 0) (2 ^ 31) = ?f (word_of_nat (2 ^ 31))"
    by (subst fill_loop_eq) simp_all
  also have "\<dots> = 1"
    by (simp add: trace_engine_def)
  finally show ?thesis
    using run popcount_mask31 by simp
qed

section \<open>Multi-qubit measurement: the sampling block\<close>

lemma sample_loop_exit:
  "\<not> (lowerProb < t \<and> lcv < N) \<Longrightarrow>
   sample_loop add P t N lcv lowerProb largestProb nrmlzr result = (lcv, nrmlzr, result)"
  by (subst sample_loop.simps) auto

lemma unat_of_nat_less:
  fixes N :: "'a::len word"
  assumes "k < unat N"
  shows "unat (word_of_nat k :: 'a word) = k" and "(word_of_nat k :: 'a word) < N"
proof -
  have "unat N < 2 ^ LENGTH('a)"
    by (rule unsigned_less)
  with assms have "k < 2 ^ LENGTH('a)"
    by (rule less_trans)
  then show u: "unat (word_of_nat k :: 'a word) = k"
    by (simp add: of_nat_inverse)
  show "(word_of_nat k :: 'a word) < N"
    using assms u by (simp add: word_less_nat_alt)
qed

lemma sample_loop_step:
  assumes "lowerProb < t" and "lcv < N"
  shows "sample_loop add P t N lcv lowerProb largestProb nrmlzr result =
     (case track_largest P (unat lcv) (largestProb, nrmlzr, result) of
        (largestProb', nrmlzr', result') \<Rightarrow>
          sample_loop add P t N (lcv + 1) (add lowerProb (P (unat lcv))) largestProb' nrmlzr' result')"
  using assms by (subst sample_loop.simps) (simp add: Let_def)

text \<open>
  As long as the running sum, taken with the addition of the build, is below the
  threshold, the loop goes on, and the three tracking variables are folded over the
  entries passed.
\<close>

lemma sample_loop_steps:
  fixes N :: "'a::len word"
  assumes "K \<le> unat N"
    and "\<forall>j. k \<le> j \<and> j < K \<longrightarrow> run_sum add P j < t"
    and "k \<le> K"
  shows "sample_loop add P t N (word_of_nat k) (run_sum add P k) largestProb nrmlzr result =
     (case fold (track_largest P) [k..<K] (largestProb, nrmlzr, result) of
        (largestProb', nrmlzr', result') \<Rightarrow>
          sample_loop add P t N (word_of_nat K) (run_sum add P K) largestProb' nrmlzr' result')"
  using assms(3,2)
proof (induction "K - k" arbitrary: k largestProb nrmlzr result)
  case 0
  then show ?case by simp
next
  case (Suc d)
  then have kK: "k < K" by simp
  have kN: "k < unat N" using kK assms(1) by simp
  have uk: "unat (word_of_nat k :: 'a word) = k"
    using kN by (rule unat_of_nat_less)
  have lt: "(word_of_nat k :: 'a word) < N"
    using kN by (rule unat_of_nat_less)
  have low: "run_sum add P k < t"
    using Suc.prems(2) kK by simp
  obtain l' n' r' where tl: "track_largest P k (largestProb, nrmlzr, result) = (l', n', r' :: 'a word)"
    by (cases "track_largest P k (largestProb, nrmlzr, result)") auto
  have step: "sample_loop add P t N (word_of_nat k) (run_sum add P k) largestProb nrmlzr result =
      sample_loop add P t N (word_of_nat (Suc k)) (run_sum add P (Suc k)) l' n' r'"
    using sample_loop_step [OF low lt, of add P largestProb nrmlzr result] tl
    by (simp add: uk add.commute)
  have IH: "sample_loop add P t N (word_of_nat (Suc k)) (run_sum add P (Suc k)) l' n' r' =
     (case fold (track_largest P) [Suc k..<K] (l', n', r') of
        (largestProb', nrmlzr', result') \<Rightarrow>
          sample_loop add P t N (word_of_nat K) (run_sum add P K) largestProb' nrmlzr' result')"
  proof (rule Suc.hyps(1))
    show "d = K - Suc k" using Suc.hyps(2) by simp
    show "Suc k \<le> K" using kK by simp
    show "\<forall>j. Suc k \<le> j \<and> j < K \<longrightarrow> run_sum add P j < t"
      using Suc.prems(2) by simp
  qed
  have "[k..<K] = k # [Suc k..<K]"
    using kK by (rule upt_conv_Cons)
  then show ?case
    using step IH tl by simp
qed

text \<open>
  Over entries that are not negative, the tracking variables end at the last entry
  among those of highest value.
\<close>

lemma track_largest_fold:
  fixes r0 :: "'a::len word"
  assumes "\<forall>j<K. 0 \<le> P j" and "0 < K"
  shows "\<exists>m<K. fold (track_largest P) [0..<K] (0, 1, r0) = (P m, P m, word_of_nat m)
            \<and> (\<forall>j<K. P j \<le> P m) \<and> (\<forall>j. m < j \<and> j < K \<longrightarrow> P j < P m)"
  using assms
proof (induction K)
  case 0
  then show ?case by simp
next
  case (Suc K)
  show ?case
  proof (cases "K = 0")
    case True
    with Suc.prems show ?thesis by simp
  next
    case False
    then have "0 < K" by simp
    moreover have "\<forall>j<K. 0 \<le> P j" using Suc.prems(1) by simp
    ultimately obtain m where m: "m < K"
      and f: "fold (track_largest P) [0..<K] (0, 1, r0) = (P m, P m, word_of_nat m)"
      and mx: "\<forall>j<K. P j \<le> P m" and lst: "\<forall>j. m < j \<and> j < K \<longrightarrow> P j < P m"
      using Suc.IH by blast
    show ?thesis
    proof (cases "P m \<le> P K")
      case True
      have "fold (track_largest P) [0..<Suc K] (0, 1, r0) = (P K, P K, word_of_nat K)"
        using f True by simp
      moreover have "\<forall>j<Suc K. P j \<le> P K"
        using mx True by (auto simp: less_Suc_eq)
      ultimately show ?thesis by auto
    next
      case nle: False
      have "fold (track_largest P) [0..<Suc K] (0, 1, r0) = (P m, P m, word_of_nat m)"
        using f nle by simp
      moreover have "\<forall>j<Suc K. P j \<le> P m"
        using mx nle by (auto simp: less_Suc_eq)
      moreover have "\<forall>j. m < j \<and> j < Suc K \<longrightarrow> P j < P m"
        using lst nle by (auto simp: less_Suc_eq)
      ultimately show ?thesis using m by (metis less_Suc_eq)
    qed
  qed
qed

text \<open>
  The walk: when the running sum is below the threshold before each of the patterns
  \<open>0 .. k\<close>, reaches or exceeds it with pattern \<open>k\<close>, and \<open>k\<close> is not the last
  pattern, the block selects \<open>k\<close> with its own probability as normaliser.
\<close>

lemma sample_pattern_walk:
  fixes N :: "'a::len word"
  assumes "Suc k < unat N" and "\<forall>j\<le>k. run_sum add P j < t" and "t \<le> run_sum add P (Suc k)"
  shows "sample_pattern add P t N = Some (word_of_nat k, P k)"
proof -
  obtain l' n' and r' :: "'a word" where fo: "fold (track_largest P) [0..<Suc k] (0, 1, N - 1) = (l', n', r')"
    by (cases "fold (track_largest P) [0..<Suc k] (0, 1, N - 1)") auto
  have "sample_loop add P t N (word_of_nat 0) (run_sum add P 0) 0 1 (N - 1) =
      (case fold (track_largest P) [0..<Suc k] (0, 1, N - 1) of
        (largestProb', nrmlzr', result') \<Rightarrow>
          sample_loop add P t N (word_of_nat (Suc k)) (run_sum add P (Suc k)) largestProb' nrmlzr' result')"
    by (rule sample_loop_steps) (use assms in \<open>auto simp: less_Suc_eq_le\<close>)
  also have "\<dots> = sample_loop add P t N (word_of_nat (Suc k)) (run_sum add P (Suc k)) l' n' r'"
    by (simp only: fo prod.case)
  also have "\<dots> = (word_of_nat (Suc k), n', r')"
    by (rule sample_loop_exit) (use assms(3) in simp)
  finally have run: "sample_loop add P t N 0 0 0 1 (N - 1) = (word_of_nat (Suc k), n', r')"
    by simp
  have lt: "(word_of_nat (Suc k) :: 'a word) < N"
    using assms(1) by (rule unat_of_nat_less)
  have kN: "k < unat N" using assms(1) by simp
  then have uk: "unat (word_of_nat k :: 'a word) = k"
    by (rule unat_of_nat_less)
  have lk: "(word_of_nat k :: 'a word) < N"
    using kN by (rule unat_of_nat_less)
  have "(word_of_nat (Suc k) :: 'a word) - 1 = word_of_nat k"
    by simp
  then show ?thesis
    using lt lk uk by (simp add: sample_pattern_def run Let_def)
qed

text \<open>
  The fallback: when the running sum is below the threshold before each pattern, the
  last one included, the loop leaves \<open>lcv = lengthPower\<close> and the block selects the
  last pattern among those of highest probability, with that probability as
  normaliser, whatever the running sum is after the last pattern.
\<close>

lemma sample_pattern_fallback:
  fixes N :: "'a::len word"
  assumes "0 < unat N" and "\<forall>j<unat N. 0 \<le> P j" and "\<forall>j<unat N. run_sum add P j < t"
  shows "\<exists>m<unat N. sample_pattern add P t N = Some (word_of_nat m, P m)
            \<and> (\<forall>j<unat N. P j \<le> P m) \<and> (\<forall>j. m < j \<and> j < unat N \<longrightarrow> P j < P m)"
proof -
  from track_largest_fold [OF assms(2,1), of "N - 1"]
  obtain m where m: "m < unat N"
    and fo: "fold (track_largest P) [0..<unat N] (0, 1, N - 1) = (P m, P m, word_of_nat m)"
    and mx: "\<forall>j<unat N. P j \<le> P m" and lst: "\<forall>j. m < j \<and> j < unat N \<longrightarrow> P j < P m"
    by blast
  have "sample_loop add P t N (word_of_nat 0) (run_sum add P 0) 0 1 (N - 1) =
      (case fold (track_largest P) [0..<unat N] (0, 1, N - 1) of
        (largestProb', nrmlzr', result') \<Rightarrow>
          sample_loop add P t N (word_of_nat (unat N)) (run_sum add P (unat N)) largestProb' nrmlzr' result')"
    by (rule sample_loop_steps) (use assms(3) in auto)
  also have "\<dots> = sample_loop add P t N N (run_sum add P (unat N)) (P m) (P m) (word_of_nat m)"
    by (simp add: fo)
  also have "\<dots> = (N, P m, word_of_nat m)"
    by (rule sample_loop_exit) simp
  finally have "sample_loop add P t N 0 0 0 1 (N - 1) = (N, P m, word_of_nat m)"
    by simp
  then have "sample_pattern add P t N = Some (word_of_nat m, P m)"
    by (simp add: sample_pattern_def)
  with m mx lst show ?thesis by blast
qed

text \<open>
  A threshold that is not positive: the loop body never runs, \<open>lcv--\<close> wraps around
  and the read of \<open>probArray[lcv]\<close> is outside the array.
\<close>

lemma sample_pattern_zero_draw:
  fixes N :: "'a::len word"
  assumes "0 < N" and "t \<le> 0"
  shows "sample_pattern add P t N = None"
proof -
  have "sample_loop add P t N 0 0 0 1 (N - 1) = (0, 1, N - 1)"
    by (rule sample_loop_exit) (use assms in simp)
  moreover have "\<not> (- 1 :: 'a word) < N"
    by simp
  ultimately show ?thesis
    using assms by (simp add: sample_pattern_def)
qed

text \<open>
  The loop never lowers \<open>lcv\<close>; so with a positive threshold and an array that is
  not empty the body runs once at least, \<open>lcv--\<close> does not wrap around, and the
  sampling block returns a result.
\<close>

lemma sample_loop_lcv:
  fixes N :: "'a::len word"
  shows "lcv \<le> fst (sample_loop add P t N lcv lowerProb largestProb nrmlzr result)"
proof (induction "unat N - unat lcv" arbitrary: lcv lowerProb largestProb nrmlzr result)
  case 0
  then have "\<not> lcv < N" by (simp add: word_less_nat_alt)
  then show ?case by (simp add: sample_loop_exit)
next
  case (Suc d)
  show ?case
  proof (cases "lowerProb < t \<and> lcv < N")
    case False
    then show ?thesis by (simp add: sample_loop_exit)
  next
    case True
    then have low: "lowerProb < t" and lt: "lcv < N" by simp_all
    have u: "unat (lcv + 1) = unat lcv + 1"
      using lt by (rule unat_succ_less)
    obtain l' n' r' where tl: "track_largest P (unat lcv) (largestProb, nrmlzr, result) = (l', n', r')"
      by (cases "track_largest P (unat lcv) (largestProb, nrmlzr, result)") auto
    have step: "sample_loop add P t N lcv lowerProb largestProb nrmlzr result =
        sample_loop add P t N (lcv + 1) (add lowerProb (P (unat lcv))) l' n' r'"
      using sample_loop_step [OF low lt, of add P largestProb nrmlzr result] tl by simp
    have "d = unat N - unat (lcv + 1)"
      using Suc.hyps(2) u by simp
    then have "lcv + 1 \<le> fst (sample_loop add P t N (lcv + 1) (add lowerProb (P (unat lcv))) l' n' r')"
      by (rule Suc.hyps(1))
    moreover have "lcv \<le> lcv + 1"
      using u by (simp add: word_le_nat_alt)
    ultimately show ?thesis
      unfolding step by (rule order_trans [rotated])
  qed
qed

lemma sample_pattern_returns:
  fixes N :: "'a::len word"
  assumes "0 < t" and "0 < N"
  shows "\<exists>r. sample_pattern add P t N = Some r"
proof -
  obtain lcv n r where run: "sample_loop add P t N 0 0 0 1 (N - 1) = (lcv, n, r)"
    by (cases "sample_loop add P t N 0 0 0 1 (N - 1)") auto
  obtain l' n' r' where tl: "track_largest P (unat (0 :: 'a word)) (0, 1, N - 1) = (l', n', r')"
    by (cases "track_largest P (unat (0 :: 'a word)) (0, 1, N - 1)") auto
  have "sample_loop add P t N 0 0 0 1 (N - 1) = sample_loop add P t N (0 + 1) (add 0 (P (unat (0 :: 'a word)))) l' n' r'"
    using sample_loop_step [OF assms, of add P 0 1 "N - 1"] tl by simp
  with sample_loop_lcv [of "0 + 1" add P t N "add 0 (P (unat (0 :: 'a word)))" l' n' r'] run
  have "1 \<le> lcv"
    by simp
  then have "0 < unat lcv"
    by (simp add: word_le_nat_alt)
  then have "lcv - 1 < lcv"
    by (simp add: word_less_nat_alt unat_minus_one unat_gt_0)
  then have "lcv < N \<Longrightarrow> lcv - 1 < N" by simp
  then show ?thesis
    by (auto simp: sample_pattern_def run Let_def)
qed

lemma trace_engine_sel:
  "doNormalize (trace_engine pr pm) s = True"
  "NormalizeState (trace_engine pr pm) (l, ds) = (l @ [Call_NormalizeState], ds)"
  "UpdateRunningNorm (trace_engine pr pm) (l, ds) = (l @ [Call_UpdateRunningNorm], ds)"
  "Rand (trace_engine pr pm) (l, ds) = (next_draw ds, (l @ [Call_Rand], tl ds))"
  "GetNonunitaryPhase (trace_engine pr pm) (l, ds) = (1, (l @ [Call_GetNonunitaryPhase], ds))"
  "Prob (trace_engine pr pm) qubit s = pr qubit"
  "ProbMask (trace_engine pr pm) msk perm s = pm msk perm"
  "ApplyM (trace_engine pr pm) msk result nrm (l, ds) = (l @ [Call_ApplyM msk result nrm], ds)"
  "real1_add (trace_engine pr pm) = (+)"
  by (simp_all add: trace_engine_def)

lemma count_loop_3: "count_loop (3 :: 64 word) 0 = 2"
  by (simp add: count_loop.simps)

lemma skip_loop_3: "skip_loop (3 :: 64 word) (NOT 3) [] = []"
  by (simp add: skip_loop.simps Let_def)

lemma new_real1_array_4: "new_real1_array (4 :: 64 word) = Some (\<lambda>i. 0)"
  by (simp add: new_real1_array_def)

lemma sort_1_2: "sort [1, 2 :: 64 word] = [1, 2]"
  by (simp add: word_le_nat_alt)

text \<open>
  Three runs of \<open>ForceM\<close> on the qubits 0 and 1 without forced values, on the engine
  that records its calls. The mask is 3 and the four patterns are 0, 1, 2 and 3.
  In the first run the probabilities are \<open>1/2\<close>, \<open>1/4\<close>, \<open>1/8\<close>, \<open>1/8\<close> and the draw is
  \<open>15/16\<close>; in the second every probability is 0 and the draw is \<open>1/2\<close>; in the third
  the probabilities are those of the first and the draw is 0.
\<close>

lemma ForceM_bits_run_last:
  "ForceM_bits (trace_engine (\<lambda>q. 0) (\<lambda>m p. if p = 0 then 1 / 2 else if p = 1 then 1 / 4 else 1 / 8))
       [0, 1] 2 None ([], [15 / 16]) =
     Some (0 :: 64 word,
           ([Call_NormalizeState, Call_GetNonunitaryPhase, Call_Rand,
             Call_ApplyM 3 0 (1 / complex_of_real (sqrt (1 / 2)))], []))"
proof -
  let ?pm = "\<lambda>(m :: 64 word) (p :: 64 word). if p = 0 then 1 / 2 else if p = 1 then 1 / 4 else (1 / 8 :: real)"
  define P :: real1_array where "P = (\<lambda>i. 0)(0 := 1 / 2, 1 := 1 / 4, 2 := 1 / 8, 3 := 1 / 8)"
  have pma: "ProbMaskAll (trace_engine (\<lambda>q. 0) ?pm) (3 :: 64 word) (\<lambda>i. 0) s = Some P" for s
    unfolding ProbMaskAll_def Let_def count_loop_3 skip_loop_3 P_def
    by (simp add: shl_int_def fill_loop.simps trace_engine_sel expand_pattern_def)
  have smp: "sample_pattern (+) P (15 / 16) (4 :: 64 word) = Some (0, 1 / 2)"
    by (simp add: sample_pattern_def sample_loop.simps Let_def P_def)
  show ?thesis
    by (simp add: ForceM_bits_def upt_2 shl_uint_def shl_int_def sort_1_2 pma smp new_real1_array_4
        normalize_if_needed_def trace_engine_sel next_draw_def Let_def)
qed

lemma ForceM_bits_run_zero_row:
  "ForceM_bits (trace_engine (\<lambda>q. 0) (\<lambda>m p. 0)) [0, 1] 2 None ([], [1 / 2]) =
     Some (3 :: 64 word,
           ([Call_NormalizeState, Call_GetNonunitaryPhase, Call_Rand,
             Call_ApplyM 3 3 (1 / complex_of_real (sqrt 0))], []))"
proof -
  have pma: "ProbMaskAll (trace_engine (\<lambda>q. 0) (\<lambda>m p. 0)) (3 :: 64 word) (\<lambda>i. 0) s = Some (\<lambda>i. 0)" for s
    unfolding ProbMaskAll_def Let_def count_loop_3 skip_loop_3
    by (simp add: shl_int_def fill_loop.simps trace_engine_sel fun_upd_def)
  have smp: "sample_pattern (+) (\<lambda>i. 0) (1 / 2) (4 :: 64 word) = Some (3, 0)"
    by (simp add: sample_pattern_def sample_loop.simps Let_def)
  show ?thesis
    by (simp add: ForceM_bits_def upt_2 shl_uint_def shl_int_def sort_1_2 pma smp new_real1_array_4
        normalize_if_needed_def trace_engine_sel next_draw_def Let_def)
qed

lemma ForceM_bits_run_zero_draw:
  "ForceM_bits (trace_engine (\<lambda>q. 0) (\<lambda>m p. if p = 0 then 1 / 2 else if p = 1 then 1 / 4 else 1 / 8))
       [0, 1] 2 None ([], [0]) = (None :: (64 word \<times> 64 word trace) option)"
proof -
  let ?pm = "\<lambda>(m :: 64 word) (p :: 64 word). if p = 0 then 1 / 2 else if p = 1 then 1 / 4 else (1 / 8 :: real)"
  obtain P where pma: "ProbMaskAll (trace_engine (\<lambda>q. 0) ?pm) (3 :: 64 word) (\<lambda>i. 0)
      ([Call_NormalizeState, Call_GetNonunitaryPhase, Call_Rand], []) = Some P"
    by (simp add: ProbMaskAll_def shl_int_def count_loop_3)
  have smp: "sample_pattern (+) P 0 (4 :: 64 word) = None"
    by (rule sample_pattern_zero_draw) simp_all
  show ?thesis
    by (simp add: ForceM_bits_def upt_2 shl_uint_def shl_int_def sort_1_2 pma smp new_real1_array_4
        normalize_if_needed_def trace_engine_sel next_draw_def Let_def)
qed

text \<open>
  C4, on the three runs. In the first the running sum is \<open>7/8\<close> before the last
  pattern and 1 with it: the threshold \<open>15/16\<close> is passed at pattern 3, of probability
  \<open>1/8\<close>. The loop then leaves \<open>lcv = lengthPower\<close>, the test \<open>lcv < lengthPower\<close> fails
  and the result is the pattern of highest probability: pattern 0 is returned, with
  normaliser \<open>1/2\<close>. In the second run the fallback selects the last pattern with
  normaliser 0, and \<open>ApplyM\<close> is handed \<open>phase / sqrt 0\<close>, a division by zero (the
  value that \<open>1 / 0\<close> has in HOL, 0, is not the one of the floating-point division).
  In the third run the loop body never runs, \<open>lcv--\<close> wraps around, the read of
  \<open>probArray[lcv]\<close> is outside the array, and there is no result.
\<close>

theorem ForceM_bits_sampling_slips:
  "run_sum (+) (\<lambda>i. if i = 0 then 1 / 2 else if i = 1 then 1 / 4 else 1 / 8) 3 = 7 / 8 \<and>
   run_sum (+) (\<lambda>i. if i = 0 then 1 / 2 else if i = 1 then 1 / 4 else 1 / 8) 4 = 1 \<and>
   ForceM_bits (trace_engine (\<lambda>q. 0) (\<lambda>m p. if p = 0 then 1 / 2 else if p = 1 then 1 / 4 else 1 / 8))
       [0, 1] 2 None ([], [15 / 16]) =
     Some (0 :: 64 word,
           ([Call_NormalizeState, Call_GetNonunitaryPhase, Call_Rand,
             Call_ApplyM 3 0 (1 / complex_of_real (sqrt (1 / 2)))], [])) \<and>
   ForceM_bits (trace_engine (\<lambda>q. 0) (\<lambda>m p. 0)) [0, 1] 2 None ([], [1 / 2]) =
     Some (3 :: 64 word,
           ([Call_NormalizeState, Call_GetNonunitaryPhase, Call_Rand,
             Call_ApplyM 3 3 (1 / complex_of_real (sqrt 0))], [])) \<and>
   ForceM_bits (trace_engine (\<lambda>q. 0) (\<lambda>m p. if p = 0 then 1 / 2 else if p = 1 then 1 / 4 else 1 / 8))
       [0, 1] 2 None ([], [0]) = (None :: (64 word \<times> 64 word trace) option)"
proof -
  have "run_sum (+) (\<lambda>i. if i = 0 then 1 / 2 else if i = 1 then 1 / 4 else 1 / 8) 3 = 7 / 8"
    by (simp add: numeral_3_eq_3)
  moreover have "run_sum (+) (\<lambda>i. if i = 0 then 1 / 2 else if i = 1 then 1 / 4 else 1 / 8) 4 = 1"
    by (simp add: eval_nat_numeral)
  ultimately show ?thesis
    using ForceM_bits_run_last ForceM_bits_run_zero_row ForceM_bits_run_zero_draw
    by (simp only: simp_thms)
qed

section \<open>Multi-qubit measurement: from the winning index to the pattern\<close>

lemma pow2_and_neq_0: "p < LENGTH('a) \<Longrightarrow> (2 ^ p AND (result :: 'a::len word) \<noteq> 0) = bit result p"
proof -
  assume p: "p < LENGTH('a)"
  have "2 ^ p AND result = (if bit result p then 2 ^ p else 0)"
    by (rule bit_word_eqI) (auto simp: bit_and_iff bit_exp_iff)
  moreover have "(2 :: 'a word) ^ p \<noteq> 0"
    using p by simp
  ultimately show ?thesis by simp
qed

lemma remap_loop_bits:
  "\<forall>p\<in>set ps. p < 32 \<and> p < LENGTH('a) \<Longrightarrow>
   \<exists>i :: 'a::len word. remap_loop qs result ps acc = Some i \<and>
     (\<forall>n. bit i n \<longleftrightarrow> bit acc n \<or> (\<exists>p\<in>set ps. bit result p \<and> bit (qs ! p) n))"
proof (induction ps arbitrary: acc)
  case Nil
  then show ?case by simp
next
  case (Cons p ps)
  from Cons.prems have rest: "\<forall>p\<in>set ps. p < 32 \<and> p < LENGTH('a)"
    and p32: "p < 32" and pw: "p < LENGTH('a)"
    by simp_all
  let ?acc' = "if bit result p then acc OR qs ! p else acc"
  from Cons.IH [OF rest, of ?acc']
  obtain i :: "'a word" where i: "remap_loop qs result ps ?acc' = Some i"
    and ib: "\<forall>n. bit i n \<longleftrightarrow> bit ?acc' n \<or> (\<exists>p\<in>set ps. bit result p \<and> bit (qs ! p) n)"
    by blast
  have "remap_loop qs result (p # ps) acc = Some i"
    using i p32 pw by (simp add: shl_uint_eq pow2_and_neq_0)
  moreover have "bit i n \<longleftrightarrow> bit acc n \<or> (\<exists>q\<in>set (p # ps). bit result q \<and> bit (qs ! q) n)" for n
    using ib by (auto simp: bit_or_iff split: if_splits)
  ultimately show ?case by blast
qed

lemma sorted_pow2_map:
  assumes "sorted_wrt (<) ks" and "\<forall>k\<in>set ks. k < LENGTH('a)"
  shows "sorted (map (\<lambda>k. 2 ^ k :: 'a::len word) ks)" and "distinct (map (\<lambda>k. 2 ^ k :: 'a::len word) ks)"
proof -
  have "sorted_wrt (\<lambda>x y. (2 :: 'a word) ^ x \<le> 2 ^ y) ks"
    using assms(1)
  proof (rule sorted_wrt_mono_rel [rotated])
    fix x y assume "x \<in> set ks" "y \<in> set ks" "x < y"
    then show "(2 :: 'a word) ^ x \<le> 2 ^ y"
      using assms(2) by (simp add: pow2_word_mono)
  qed
  then show "sorted (map (\<lambda>k. 2 ^ k :: 'a word) ks)"
    by (simp add: sorted_wrt_map)
  have "inj_on (\<lambda>k. 2 ^ k :: 'a word) (set ks)"
  proof (rule inj_onI)
    fix x y assume "x \<in> set ks" "y \<in> set ks" and eq: "(2 :: 'a word) ^ x = 2 ^ y"
    then have "x < LENGTH('a)" using assms(2) by simp
    then have "bit ((2 :: 'a word) ^ x) x" by (simp add: bit_exp_iff)
    then have "bit ((2 :: 'a word) ^ y) x" by (simp only: eq)
    then show "x = y" by (simp add: bit_exp_iff)
  qed
  moreover have "distinct ks"
    using assms(1) by (simp add: strict_sorted_iff)
  ultimately show "distinct (map (\<lambda>k. 2 ^ k :: 'a word) ks)"
    by (simp add: distinct_map)
qed

lemma sorted_mask_bits: "sorted_wrt (<) (mask_bits m)"
  unfolding mask_bits_def by (intro sorted_wrt_filter) (rule sorted_wrt_upt)

lemma set_mask_bits: "set (mask_bits m) = {n. bit m n}"
  by (auto simp: mask_bits_def dest: bit_imp_le_length)

lemma sort_powers_mask:
  fixes regMask :: "'a::len word"
  assumes "distinct bits" and "\<forall>b\<in>set bits. b < LENGTH('a)"
    and "\<forall>k. bit regMask k \<longleftrightarrow> k \<in> set bits"
  shows "sort (map (\<lambda>b. 2 ^ b) bits) = map (\<lambda>k. 2 ^ k :: 'a word) (mask_bits regMask)"
proof (rule sorted_distinct_set_unique)
  show "sorted (sort (map (\<lambda>b. 2 ^ b :: 'a word) bits))" by simp
  have "inj_on (\<lambda>k. 2 ^ k :: 'a word) (set bits)"
  proof (rule inj_onI)
    fix x y assume "x \<in> set bits" "y \<in> set bits" and eq: "(2 :: 'a word) ^ x = 2 ^ y"
    then have "x < LENGTH('a)" using assms(2) by simp
    then have "bit ((2 :: 'a word) ^ x) x" by (simp add: bit_exp_iff)
    then have "bit ((2 :: 'a word) ^ y) x" by (simp only: eq)
    then show "x = y" by (simp add: bit_exp_iff)
  qed
  then show "distinct (sort (map (\<lambda>b. 2 ^ b :: 'a word) bits))"
    using assms(1) by (simp add: distinct_map)
  have bnd: "\<forall>k\<in>set (mask_bits regMask). k < LENGTH('a)"
    by (auto simp: mask_bits_def)
  show "sorted (map (\<lambda>k. 2 ^ k :: 'a word) (mask_bits regMask))"
    using sorted_mask_bits bnd by (rule sorted_pow2_map)
  show "distinct (map (\<lambda>k. 2 ^ k :: 'a word) (mask_bits regMask))"
    using sorted_mask_bits bnd by (rule sorted_pow2_map)
  show "set (sort (map (\<lambda>b. 2 ^ b :: 'a word) bits)) = set (map (\<lambda>k. 2 ^ k) (mask_bits regMask))"
    using assms(3) by (simp add: set_mask_bits)
qed

lemma length_mask_bits_distinct:
  fixes regMask :: "'a::len word"
  assumes "distinct bits" and "\<forall>k. bit regMask k \<longleftrightarrow> k \<in> set bits"
  shows "length (mask_bits regMask) = length bits"
proof -
  have "set (mask_bits regMask) = set bits"
    using assms(2) by (simp add: set_mask_bits)
  then have "card (set (mask_bits regMask)) = card (set bits)" by simp
  then show ?thesis
    using assms(1) distinct_mask_bits [of regMask] by (simp add: distinct_card)
qed

lemma map_nth_upt: "map (\<lambda>j. f (xs ! j)) [0..<length xs] = map f xs"
proof -
  have "map f xs = map f (map ((!) xs) [0..<length xs])"
    by (simp only: map_nth)
  then show ?thesis by (simp add: o_def)
qed

text \<open>
  The conversion loop run on the sorted bit powers of distinct qubits: bit \<open>n\<close> of
  its value is set exactly when some \<open>p < length\<close> has bit \<open>p\<close> of \<open>result\<close> set and
  the \<open>p\<close>-th entry of the sorted \<open>qPowers\<close> is \<open>2 ^ n\<close>; the sorted \<open>qPowers\<close> are
  the bit powers of the mask in ascending order; and for an index below
  \<open>2 ^ length\<close> the value is the pattern that the skip-power list of the mask
  expands the index to.
\<close>

lemma remap_loop_sorted:
  fixes result regMask :: "'a::len word"
  assumes "length bits = len" and "distinct bits"
    and "\<forall>b\<in>set bits. b < 32 \<and> b < LENGTH('a)"
    and "powers_loop shl_uint bits [0..<len] [] 0 = Some (qPowers, regMask)"
  shows "\<exists>i. remap_loop (sort qPowers) result [0..<len] 0 = Some i
           \<and> (\<forall>n. bit i n \<longleftrightarrow> (\<exists>p<len. bit result p \<and> sort qPowers ! p = 2 ^ n \<and> n < LENGTH('a)))
           \<and> sort qPowers = map (\<lambda>k. 2 ^ k) (mask_bits regMask)
           \<and> (result < 2 ^ len \<longrightarrow> i = expand_pattern (skip_loop regMask (NOT regMask) []) result)"
proof -
  have b32: "\<forall>j\<in>set [0..<len]. bits ! j < 32"
    using assms(1,3) by simp
  from powers_loop_uint [OF b32, of "[]" 0]
  obtain m' :: "'a word" where
    pl: "powers_loop shl_uint bits [0..<len] [] 0 = Some ([] @ map (\<lambda>j. 2 ^ (bits ! j)) [0..<len], m')"
    and mb: "\<forall>k. bit m' k \<longleftrightarrow> bit (0 :: 'a word) k \<or> (k < LENGTH('a) \<and> (\<exists>j\<in>set [0..<len]. bits ! j = k))"
    by blast
  from pl assms(4) have qp: "qPowers = map (\<lambda>j. 2 ^ (bits ! j)) [0..<len]" and "m' = regMask"
    by simp_all
  with mb have rm: "\<forall>k. bit regMask k \<longleftrightarrow> k < LENGTH('a) \<and> (\<exists>j\<in>set [0..<len]. bits ! j = k)"
    by simp
  have qp': "qPowers = map (\<lambda>b. 2 ^ b) bits"
    unfolding qp assms(1) [symmetric] by (rule map_nth_upt)
  have rm': "\<forall>k. bit regMask k \<longleftrightarrow> k \<in> set bits"
  proof
    fix k
    have "(\<exists>j\<in>set [0..<len]. bits ! j = k) \<longleftrightarrow> k \<in> set bits"
      using assms(1) by (auto simp: in_set_conv_nth)
    then show "bit regMask k \<longleftrightarrow> k \<in> set bits"
      using rm assms(3) by auto
  qed
  have bw: "\<forall>b\<in>set bits. b < LENGTH('a)"
    using assms(3) by simp
  have srt: "sort qPowers = map (\<lambda>k. 2 ^ k) (mask_bits regMask)"
    unfolding qp' using assms(2) bw rm' by (rule sort_powers_mask)
  have len: "length (mask_bits regMask) = len"
    using length_mask_bits_distinct [OF assms(2) rm'] assms(1) by simp
  have mbw: "mask_bits regMask ! p < LENGTH('a)" if "p < len" for p
  proof -
    from that len have "mask_bits regMask ! p \<in> set (mask_bits regMask)"
      by simp
    then show ?thesis by (simp add: mask_bits_def)
  qed
  have "length (mask_bits regMask) \<le> length [0..<LENGTH('a)]"
    unfolding mask_bits_def by (rule length_filter_le)
  then have lenw: "len \<le> LENGTH('a)"
    using len by simp
  have lt32: "\<forall>p\<in>set [0..<len]. p < 32 \<and> p < LENGTH('a)"
  proof
    fix p assume "p \<in> set [0..<len]"
    then have pl: "p < len" by simp
    have "card (set bits) \<le> card {..<(32::nat)}"
      by (rule card_mono) (use assms(3) in auto)
    then have "len \<le> 32"
      using assms(1,2) by (simp add: distinct_card)
    with pl lenw show "p < 32 \<and> p < LENGTH('a)" by simp
  qed
  from remap_loop_bits [OF lt32, of "sort qPowers" result 0]
  obtain i :: "'a word" where i: "remap_loop (sort qPowers) result [0..<len] 0 = Some i"
    and ib: "\<forall>n. bit i n \<longleftrightarrow> bit (0 :: 'a word) n \<or> (\<exists>p\<in>set [0..<len]. bit result p \<and> bit (sort qPowers ! p) n)"
    by blast
  have nthp: "\<And>p. p < len \<Longrightarrow> sort qPowers ! p = 2 ^ (mask_bits regMask ! p)"
    unfolding srt using len by simp
  have ib': "bit i n \<longleftrightarrow> (\<exists>p<len. bit result p \<and> mask_bits regMask ! p = n)" for n
  proof -
    have "bit (sort qPowers ! p) n \<longleftrightarrow> mask_bits regMask ! p = n" if "p < len" for p
      using mbw [OF that] by (auto simp: nthp [OF that] bit_exp_iff)
    then have "(\<exists>p\<in>set [0..<len]. bit result p \<and> bit (sort qPowers ! p) n)
        \<longleftrightarrow> (\<exists>p<len. bit result p \<and> mask_bits regMask ! p = n)"
      by auto
    with ib show ?thesis by simp
  qed
  have pow_eq: "((2 :: 'a word) ^ k = 2 ^ n \<and> n < LENGTH('a)) \<longleftrightarrow> k = n" if "k < LENGTH('a)" for k n
  proof
    assume a: "(2 :: 'a word) ^ k = 2 ^ n \<and> n < LENGTH('a)"
    have "bit ((2 :: 'a word) ^ k) k" using that by (simp add: bit_exp_iff)
    then have "bit ((2 :: 'a word) ^ n) k" using a by simp
    then show "k = n" by (simp add: bit_exp_iff)
  next
    assume "k = n" with that show "(2 :: 'a word) ^ k = 2 ^ n \<and> n < LENGTH('a)" by simp
  qed
  have c1: "\<forall>n. bit i n \<longleftrightarrow> (\<exists>p<len. bit result p \<and> sort qPowers ! p = 2 ^ n \<and> n < LENGTH('a))"
  proof
    fix n
    have "(sort qPowers ! p = 2 ^ n \<and> n < LENGTH('a)) \<longleftrightarrow> mask_bits regMask ! p = n" if "p < len" for p
      using pow_eq [OF mbw [OF that], of n] by (simp only: nthp [OF that])
    then have "(\<exists>p<len. bit result p \<and> sort qPowers ! p = 2 ^ n \<and> n < LENGTH('a))
        \<longleftrightarrow> (\<exists>p<len. bit result p \<and> mask_bits regMask ! p = n)"
      by blast
    then show "bit i n \<longleftrightarrow> (\<exists>p<len. bit result p \<and> sort qPowers ! p = 2 ^ n \<and> n < LENGTH('a))"
      using ib' [of n] by simp
  qed
  have c3: "i = expand_pattern (skip_loop regMask (NOT regMask) []) result" if lt: "result < 2 ^ len"
  proof (rule bit_word_eqI)
    fix n assume "n < LENGTH('a)"
    have lt': "result < 2 ^ length (mask_bits regMask)"
      using lt len by simp
    have "bit (expand_pattern (skip_loop regMask (NOT regMask) []) result) n
        \<longleftrightarrow> bit regMask n \<and> bit result (rank regMask n)"
      by (rule expand_pattern_bits [OF lt'])
    also have "\<dots> \<longleftrightarrow> (\<exists>p<len. bit result p \<and> mask_bits regMask ! p = n)"
    proof
      assume a: "bit regMask n \<and> bit result (rank regMask n)"
      then have "rank regMask n < len" and "mask_bits regMask ! rank regMask n = n"
        using nth_mask_bits_rank [of regMask n] len by simp_all
      with a show "\<exists>p<len. bit result p \<and> mask_bits regMask ! p = n" by blast
    next
      assume "\<exists>p<len. bit result p \<and> mask_bits regMask ! p = n"
      then obtain p where p: "p < len" "bit result p" "mask_bits regMask ! p = n" by blast
      from p(1) len have pl: "p < length (mask_bits regMask)" by simp
      from rank_nth_mask_bits [OF pl] p show "bit regMask n \<and> bit result (rank regMask n)"
        by simp
    qed
    finally show "bit i n \<longleftrightarrow> bit (expand_pattern (skip_loop regMask (NOT regMask) []) result) n"
      using ib' [of n] by simp
  qed
  from i c1 srt c3 show ?thesis by blast
qed

lemma mask_bits_sort:
  fixes regMask :: "'a::len word"
  assumes "distinct bits" and "\<forall>k. bit regMask k \<longleftrightarrow> k \<in> set bits"
  shows "mask_bits regMask = sort bits"
proof (rule sorted_distinct_set_unique)
  show "sorted (mask_bits regMask)"
    using sorted_mask_bits [of regMask] by (simp add: strict_sorted_iff)
  show "distinct (mask_bits regMask)" by (rule distinct_mask_bits)
  show "sorted (sort bits)" by simp
  show "distinct (sort bits)" using assms(1) by simp
  show "set (mask_bits regMask) = set (sort bits)"
    using assms(2) by (simp add: set_mask_bits)
qed

lemma pow2_eq_iff:
  assumes "k < LENGTH('a)"
  shows "((2 :: 'a::len word) ^ k = 2 ^ n \<and> n < LENGTH('a)) \<longleftrightarrow> k = n"
proof
  assume a: "(2 :: 'a word) ^ k = 2 ^ n \<and> n < LENGTH('a)"
  have "bit ((2 :: 'a word) ^ k) k" using assms by (simp add: bit_exp_iff)
  then have "bit ((2 :: 'a word) ^ n) k" using a by simp
  then show "k = n" by (simp add: bit_exp_iff)
next
  assume "k = n" with assms show "(2 :: 'a word) ^ k = 2 ^ n \<and> n < LENGTH('a)" by simp
qed

lemma word_of_nat_less_pow2:
  assumes "i < 2 ^ len" and "len < LENGTH('a)"
  shows "(word_of_nat i :: 'a::len word) < 2 ^ len"
proof -
  have "unat (2 ^ len :: 'a word) = 2 ^ len"
    using assms(2) by (rule unat_pow2)
  with assms(1) have "i < unat (2 ^ len :: 'a word)" by simp
  then show ?thesis by (rule unat_of_nat_less)
qed

lemma bit_5: "bit (5 :: 64 word) n \<longleftrightarrow> n = 0 \<or> n = 2"
proof -
  have "(5 :: 64 word) = 2 ^ 2 OR 2 ^ 0"
    by simp
  then have "bit (5 :: 64 word) n \<longleftrightarrow> bit (2 ^ 2 OR 2 ^ 0 :: 64 word) n"
    by (simp only:)
  also have "\<dots> \<longleftrightarrow> n = 0 \<or> n = 2"
    unfolding bit_or_iff bit_exp_iff by auto
  finally show ?thesis .
qed

text \<open>
  C5. \<open>ForceM\<close> on a list of more than one qubit, the qubits distinct and their
  shifts defined, without forced values. The call is the chain of its steps, each of
  which may fail: \<open>1 << length\<close>, the allocation, \<open>ProbMaskAll\<close> on the mask with
  exactly the bits \<open>bits[j]\<close>, the sampling block, which yields the winning index
  and the normaliser; the value returned and handed to \<open>ApplyM\<close> is then the
  conversion \<open>pattern_of index\<close> of the winning index. Bit \<open>n\<close> of the conversion
  is set exactly when \<open>n\<close> is the \<open>p\<close>-th smallest of the qubits for some bit \<open>p\<close> set
  in the index, with \<open>p < length\<close>: bit \<open>p\<close> is mapped to the \<open>p\<close>-th smallest bit
  power. For an index below \<open>2 ^ length\<close> the conversion is the expansion by the
  skip-power list of the mask, which \<open>ProbMaskAll\<close> uses: where \<open>1 << length\<close> is
  exact, entry \<open>i\<close> of the probability array is the probability of the pattern that
  index \<open>i\<close> is converted to. And where \<open>1 << length\<close> is exact and the draw is
  positive, the call returns a result.
\<close>

theorem ForceM_bits_unforced:
  fixes e :: "('s, 'a::len word) qengine"
  assumes "1 < len" and "length bits = len" and "distinct bits"
    and "\<forall>b\<in>set bits. b < 32 \<and> b < LENGTH('a)"
  shows "\<exists>regMask pattern_of.
           ForceM_bits e bits len None s0 =
             (let s1 = normalize_if_needed e s0;
                  phase = fst (GetNonunitaryPhase e s1);
                  s2 = snd (GetNonunitaryPhase e s1);
                  prob = fst (Rand e s2);
                  s3 = snd (Rand e s2)
              in case shl_int len of
                   None \<Rightarrow> None
                 | Some lengthPower \<Rightarrow>
                     (case new_real1_array lengthPower of
                        None \<Rightarrow> None
                      | Some zeros \<Rightarrow>
                          (case ProbMaskAll e regMask zeros s3 of
                             None \<Rightarrow> None
                           | Some probArray \<Rightarrow>
                               (case sample_pattern (real1_add e) probArray prob lengthPower of
                                  None \<Rightarrow> None
                                | Some (index, nrmlzr) \<Rightarrow>
                                    Some (pattern_of index,
                                      ApplyM e regMask (pattern_of index)
                                        (phase / complex_of_real (sqrt nrmlzr)) s3)))))
         \<and> (\<forall>k. bit regMask k \<longleftrightarrow> k \<in> set bits)
         \<and> (\<forall>index n. bit (pattern_of index) n \<longleftrightarrow> (\<exists>p<len. bit index p \<and> sort bits ! p = n))
         \<and> (\<forall>index. index < 2 ^ len \<longrightarrow>
               pattern_of index = expand_pattern (skip_loop regMask (NOT regMask) []) index)
         \<and> (len < 31 \<and> len < LENGTH('a) \<longrightarrow>
               (\<forall>zeros s. ProbMaskAll e regMask zeros s =
                  Some (\<lambda>i. if i < 2 ^ len then ProbMask e regMask (pattern_of (word_of_nat i)) s
                             else zeros i)))
         \<and> (len < 31 \<and> len < LENGTH('a)
              \<and> 0 < fst (Rand e (snd (GetNonunitaryPhase e (normalize_if_needed e s0)))) \<longrightarrow>
               (\<exists>pattern s'. ForceM_bits e bits len None s0 = Some (pattern, s')))"
proof -
  have b32: "\<forall>j\<in>set [0..<len]. bits ! j < 32"
    using assms(2,4) by simp
  from powers_loop_uint [OF b32, of "[]" 0]
  obtain regMask :: "'a word" where
    pl0: "powers_loop shl_uint bits [0..<len] [] 0 = Some ([] @ map (\<lambda>j. 2 ^ (bits ! j)) [0..<len], regMask)"
    and mb: "\<forall>k. bit regMask k \<longleftrightarrow> bit (0 :: 'a word) k \<or> (k < LENGTH('a) \<and> (\<exists>j\<in>set [0..<len]. bits ! j = k))"
    by blast
  define qPowers :: "'a word list" where "qPowers = map (\<lambda>b. 2 ^ b) bits"
  have "map (\<lambda>j. 2 ^ (bits ! j)) [0..<len] = (qPowers :: 'a word list)"
    unfolding qPowers_def assms(2) [symmetric] by (rule map_nth_upt)
  with pl0 have pl: "powers_loop shl_uint bits [0..<len] [] 0 = Some (qPowers, regMask)"
    by simp
  have rm: "\<forall>k. bit regMask k \<longleftrightarrow> k \<in> set bits"
  proof
    fix k
    have "(\<exists>j\<in>set [0..<len]. bits ! j = k) \<longleftrightarrow> k \<in> set bits"
      using assms(2) by (auto simp: in_set_conv_nth)
    then show "bit regMask k \<longleftrightarrow> k \<in> set bits"
      using mb assms(4) by auto
  qed
  have mbs: "mask_bits regMask = sort bits"
    using assms(3) rm by (rule mask_bits_sort)
  have len: "length (mask_bits regMask) = len"
    using mbs assms(2) by simp
  have pc: "popcount regMask = len"
    using len by (simp add: popcount_def)
  have ex: "\<exists>i. remap_loop (sort qPowers) index [0..<len] 0 = Some i
           \<and> (\<forall>n. bit i n \<longleftrightarrow> (\<exists>p<len. bit index p \<and> sort bits ! p = n))
           \<and> (index < 2 ^ len \<longrightarrow> i = expand_pattern (skip_loop regMask (NOT regMask) []) index)" for index
  proof -
    from remap_loop_sorted [OF assms(2,3,4) pl, of index]
    obtain i where i: "remap_loop (sort qPowers) index [0..<len] 0 = Some i"
      and ib: "\<forall>n. bit i n \<longleftrightarrow> (\<exists>p<len. bit index p \<and> sort qPowers ! p = 2 ^ n \<and> n < LENGTH('a))"
      and srt: "sort qPowers = map (\<lambda>k. 2 ^ k) (mask_bits regMask)"
      and ex: "index < 2 ^ len \<longrightarrow> i = expand_pattern (skip_loop regMask (NOT regMask) []) index"
      by blast
    have nthp: "sort qPowers ! p = 2 ^ (sort bits ! p)" if "p < len" for p
      unfolding srt mbs using that assms(2) by simp
    have bw: "sort bits ! p < LENGTH('a)" if "p < len" for p
    proof -
      have "sort bits ! p \<in> set (sort bits)"
        using that assms(2) by (intro nth_mem) simp
      then show ?thesis using assms(4) by simp
    qed
    have "bit i n \<longleftrightarrow> (\<exists>p<len. bit index p \<and> sort bits ! p = n)" for n
    proof -
      have "(sort qPowers ! p = 2 ^ n \<and> n < LENGTH('a)) \<longleftrightarrow> sort bits ! p = n" if "p < len" for p
        using pow2_eq_iff [OF bw [OF that], of n] by (simp only: nthp [OF that])
      then have "(\<exists>p<len. bit index p \<and> sort qPowers ! p = 2 ^ n \<and> n < LENGTH('a))
          \<longleftrightarrow> (\<exists>p<len. bit index p \<and> sort bits ! p = n)"
        by blast
      with ib show ?thesis by simp
    qed
    with i ex show ?thesis by blast
  qed
  define pattern_of where "pattern_of index = the (remap_loop (sort qPowers) index [0..<len] 0)" for index
  have rl: "remap_loop (sort qPowers) index [0..<len] 0 = Some (pattern_of index)" for index
    using ex [of index] unfolding pattern_of_def by auto
  have pb: "\<forall>index n. bit (pattern_of index) n \<longleftrightarrow> (\<exists>p<len. bit index p \<and> sort bits ! p = n)"
    using ex rl by (metis option.inject)
  have pe: "\<forall>index. index < 2 ^ len \<longrightarrow>
               pattern_of index = expand_pattern (skip_loop regMask (NOT regMask) []) index"
    using ex rl by (metis option.inject)
  have run: "ForceM_bits e bits len None s0 =
             (let s1 = normalize_if_needed e s0;
                  phase = fst (GetNonunitaryPhase e s1);
                  s2 = snd (GetNonunitaryPhase e s1);
                  prob = fst (Rand e s2);
                  s3 = snd (Rand e s2)
              in case shl_int len of
                   None \<Rightarrow> None
                 | Some lengthPower \<Rightarrow>
                     (case new_real1_array lengthPower of
                        None \<Rightarrow> None
                      | Some zeros \<Rightarrow>
                          (case ProbMaskAll e regMask zeros s3 of
                             None \<Rightarrow> None
                           | Some probArray \<Rightarrow>
                               (case sample_pattern (real1_add e) probArray prob lengthPower of
                                  None \<Rightarrow> None
                                | Some (index, nrmlzr) \<Rightarrow>
                                    Some (pattern_of index,
                                      ApplyM e regMask (pattern_of index)
                                        (phase / complex_of_real (sqrt nrmlzr)) s3)))))"
    using assms(1) pl rl
    unfolding ForceM_bits_def Let_def
    by (simp add: case_prod_beta split: option.splits)
  have en: "len < 31 \<and> len < LENGTH('a) \<longrightarrow>
               (\<forall>zeros s. ProbMaskAll e regMask zeros s =
                  Some (\<lambda>i. if i < 2 ^ len then ProbMask e regMask (pattern_of (word_of_nat i)) s
                             else zeros i))"
  proof (intro impI allI)
    fix zeros s
    assume l: "len < 31 \<and> len < LENGTH('a)"
    then have "popcount regMask < 31" "popcount regMask < LENGTH('a)"
      using pc by simp_all
    from ProbMaskAll_enumerates [OF this, of e zeros s]
    have "ProbMaskAll e regMask zeros s =
           Some (\<lambda>i. if i < 2 ^ len
                      then ProbMask e regMask (expand_pattern (skip_loop regMask (NOT regMask) []) (word_of_nat i)) s
                      else zeros i)"
      by (simp add: pc)
    moreover have "pattern_of (word_of_nat i) = expand_pattern (skip_loop regMask (NOT regMask) []) (word_of_nat i)"
      if "i < 2 ^ len" for i
    proof -
      from l have "len < LENGTH('a)" by simp
      with that have "(word_of_nat i :: 'a word) < 2 ^ len"
        by (rule word_of_nat_less_pow2)
      with pe show ?thesis by simp
    qed
    ultimately show "ProbMaskAll e regMask zeros s =
                  Some (\<lambda>i. if i < 2 ^ len then ProbMask e regMask (pattern_of (word_of_nat i)) s
                             else zeros i)"
      by (simp cong: if_cong)
  qed
  have ret: "len < 31 \<and> len < LENGTH('a)
              \<and> 0 < fst (Rand e (snd (GetNonunitaryPhase e (normalize_if_needed e s0)))) \<longrightarrow>
               (\<exists>pattern s'. ForceM_bits e bits len None s0 = Some (pattern, s'))"
  proof
    assume l: "len < 31 \<and> len < LENGTH('a)
              \<and> 0 < fst (Rand e (snd (GetNonunitaryPhase e (normalize_if_needed e s0))))"
    let ?s3 = "snd (Rand e (snd (GetNonunitaryPhase e (normalize_if_needed e s0))))"
    let ?prob = "fst (Rand e (snd (GetNonunitaryPhase e (normalize_if_needed e s0))))"
    from l have lp: "(shl_int len :: 'a word option) = Some (2 ^ len)"
      by (simp add: shl_int_eq)
    from l have nw: "new_real1_array (2 ^ len :: 'a word) = Some (\<lambda>i. 0)"
      by (simp add: new_real1_array_pow2)
    from l en obtain probArray where pa: "ProbMaskAll e regMask (\<lambda>i. 0) ?s3 = Some probArray"
      by simp
    have "(0 :: 'a word) < 2 ^ len"
      using l by (simp add: word_gt_0)
    with l obtain r where "sample_pattern (real1_add e) probArray ?prob (2 ^ len :: 'a word) = Some r"
      using sample_pattern_returns [of ?prob "2 ^ len :: 'a word" "real1_add e" probArray] by blast
    then show "\<exists>pattern s'. ForceM_bits e bits len None s0 = Some (pattern, s')"
      unfolding run Let_def by (cases r) (simp add: lp nw pa)
  qed
  from run rm pb pe en ret show ?thesis
    apply -
    apply (rule exI [of _ regMask])
    apply (rule exI [of _ pattern_of])
    apply (intro conjI)
         apply assumption+
    done
qed

theorem ForceM_bits_unforced_witness:
  "(1 :: nat) < 2 \<and> length [2, 0 :: nat] = 2 \<and> distinct [2, 0 :: nat]
   \<and> (2 :: nat) < 32 \<and> (2 :: nat) < LENGTH(64) \<and> (0 :: nat) < 32 \<and> (0 :: nat) < LENGTH(64)
   \<and> ForceM_bits (trace_engine (\<lambda>q. 0)
          (\<lambda>m p. if p = 4 then 1 / 2 else if p = 5 then 1 / 4 else 1 / 8)) [2, 0] 2 None ([], [1 / 2]) =
        Some (4 :: 64 word,
          ([Call_NormalizeState, Call_GetNonunitaryPhase, Call_Rand,
            Call_ApplyM 5 4 (1 / complex_of_real (sqrt (1 / 2)))], []))"
proof -
  let ?e = "trace_engine (\<lambda>q. 0) (\<lambda>m p. if p = 4 then 1 / 2 else if p = 5 then 1 / 4 else 1 / 8)
    :: (64 word trace, 64 word) qengine"
  have h4: "\<forall>b\<in>set [2, 0 :: nat]. b < 32 \<and> b < LENGTH(64)"
    by simp
  have h1: "(1 :: nat) < 2" and h2: "length [2, 0 :: nat] = 2" and h3: "distinct [2, 0 :: nat]"
    by simp_all
  from ForceM_bits_unforced [of 2 "[2, 0]" ?e "([], [1 / 2])", OF h1 h2 h3 h4]
  obtain regMask :: "64 word" and pattern_of where
    run: "ForceM_bits ?e [2, 0] 2 None ([], [1 / 2]) =
             (let s1 = normalize_if_needed ?e ([], [1 / 2]);
                  phase = fst (GetNonunitaryPhase ?e s1);
                  s2 = snd (GetNonunitaryPhase ?e s1);
                  prob = fst (Rand ?e s2);
                  s3 = snd (Rand ?e s2)
              in case shl_int 2 of
                   None \<Rightarrow> None
                 | Some lengthPower \<Rightarrow>
                     (case new_real1_array lengthPower of
                        None \<Rightarrow> None
                      | Some zeros \<Rightarrow>
                          (case ProbMaskAll ?e regMask zeros s3 of
                             None \<Rightarrow> None
                           | Some probArray \<Rightarrow>
                               (case sample_pattern (real1_add ?e) probArray prob lengthPower of
                                  None \<Rightarrow> None
                                | Some (index, nrmlzr) \<Rightarrow>
                                    Some (pattern_of index,
                                      ApplyM ?e regMask (pattern_of index)
                                        (phase / complex_of_real (sqrt nrmlzr)) s3)))))"
    and rm: "\<forall>k. bit regMask k \<longleftrightarrow> k \<in> set [2, 0 :: nat]"
    and pe: "\<forall>index. index < 2 ^ 2 \<longrightarrow>
               pattern_of index = expand_pattern (skip_loop regMask (NOT regMask) []) index"
    by (elim exE conjE) blast
  have rm5: "regMask = 5"
  proof (rule bit_word_eqI)
    fix n
    from rm have "bit regMask n \<longleftrightarrow> n \<in> set [2, 0 :: nat]"
      by (rule spec)
    also have "\<dots> \<longleftrightarrow> n = 0 \<or> n = 2"
      by auto
    also have "\<dots> \<longleftrightarrow> bit (5 :: 64 word) n"
      by (rule bit_5 [symmetric])
    finally show "bit regMask n \<longleftrightarrow> bit (5 :: 64 word) n" .
  qed
  have cnt: "count_loop (5 :: 64 word) 0 = 2"
    by (simp add: count_loop.simps)
  have sk: "skip_loop (5 :: 64 word) (NOT 5) [] = [2]"
    by (simp add: skip_loop.simps Let_def)
  have p2: "pattern_of 2 = 4"
    using pe unfolding rm5 sk by (simp add: expand_pattern_def)
  define P :: real1_array where "P = (\<lambda>i. 0)(0 := 1 / 8, 1 := 1 / 8, 2 := 1 / 2, 3 := 1 / 4)"
  have pma: "ProbMaskAll ?e (5 :: 64 word) (\<lambda>i. 0) s = Some P" for s
    unfolding ProbMaskAll_def Let_def cnt sk P_def
    by (simp add: shl_int_def fill_loop.simps trace_engine_sel expand_pattern_def)
  have smp: "sample_pattern (+) P (1 / 2) (4 :: 64 word) = Some (2, 1 / 2)"
    by (simp add: sample_pattern_def sample_loop.simps Let_def P_def)
  have "ForceM_bits ?e [2, 0] 2 None ([], [1 / 2]) =
        Some (4 :: 64 word,
          ([Call_NormalizeState, Call_GetNonunitaryPhase, Call_Rand,
            Call_ApplyM 5 4 (1 / complex_of_real (sqrt (1 / 2)))], []))"
    unfolding run rm5
    by (simp add: shl_int_def new_real1_array_4 pma smp p2
        normalize_if_needed_def trace_engine_sel next_draw_def Let_def)
  then show ?thesis
    by simp
qed



section \<open>Gate layer: \<open>Swap\<close> applied twice\<close>










end
